theory Spec2Isabelle
  imports Main "HOL-Library.Word"
begin

section \<open>The document tree\<close>

text \<open>
  The handlers (\<^verbatim>\<open>JSONHandler\<close>, \<^verbatim>\<open>YAMLHandler\<close>, ...) work on plain JavaScript values as
  \<^verbatim>\<open>JSON.parse\<close> or \<^verbatim>\<open>yaml.load\<close> returns them. An object is the list of its own properties
  in the order \<^verbatim>\<open>for (key in obj)\<close> and \<^verbatim>\<open>Object.keys\<close> enumerate them. A JavaScript array
  is an object too: its slots are its index properties (a slot emptied by \<^verbatim>\<open>delete\<close> is a
  hole, \<open>None\<close>), and it may carry further named properties, which \<^verbatim>\<open>arr[key] = v\<close>
  creates for a key that is not an array index.

  A number is an integer from \<open>- 2^53\<close> to \<open>2^53 - 1\<close>, a word of 54 bits read as a
  signed integer: these are numbers that JavaScript holds exactly and prints in plain
  decimal form. Fractions and numbers of larger magnitude are outside the model.

  A string is the list of its UTF-16 code units, each of them below 256: the characters
  of Latin-1. Texts with other characters are outside the model.
\<close>

datatype jsvalue =
    Undefined
  | Null
  | Bool bool
  | Number "54 word"
  | Str string
  | Array "jsvalue option list" "(string \<times> jsvalue) list"
  | Object "(string \<times> jsvalue) list"

text \<open>An array literal \<^verbatim>\<open>[v0, v1, ...]\<close>: no holes, no named properties.\<close>

abbreviation array_of :: "jsvalue list \<Rightarrow> jsvalue" where
  "array_of vs \<equiv> Array (map Some vs) []"

datatype js_error =
    TypeError
  | DotNotationRequired
  | JSONPathFailed
  | InvalidPattern

text \<open>\<^verbatim>\<open>typeof v\<close>.\<close>

fun typeof :: "jsvalue \<Rightarrow> string" where
  "typeof Undefined = ''undefined''"
| "typeof Null = ''object''"
| "typeof (Bool b) = ''boolean''"
| "typeof (Number n) = ''number''"
| "typeof (Str s) = ''string''"
| "typeof (Array es xs) = ''object''"
| "typeof (Object kvs) = ''object''"

text \<open>\<^verbatim>\<open>typeof v === 'object' && v !== null\<close>; also \<^verbatim>\<open>v && typeof v === 'object'\<close>, since
  \<^verbatim>\<open>null\<close> is the only falsy value whose \<^verbatim>\<open>typeof\<close> is \<^verbatim>\<open>'object'\<close>.\<close>

fun is_object :: "jsvalue \<Rightarrow> bool" where
  "is_object (Array es xs) = True"
| "is_object (Object kvs) = True"
| "is_object v = False"

subsection \<open>Numbers in strings\<close>

text \<open>The decimal form of a natural number, as a template literal \<^verbatim>\<open>`${i}`\<close> prints it.\<close>

definition digit_char :: "nat \<Rightarrow> char" where
  "digit_char d = char_of (48 + d)"

fun show_nat :: "nat \<Rightarrow> string" where
  "show_nat n = (if n < 10 then [digit_char n] else show_nat (n div 10) @ [digit_char (n mod 10)])"

declare show_nat.simps [simp del]

definition digit_val :: "char \<Rightarrow> nat" where
  "digit_val c = of_char c - 48"

definition read_nat :: "string \<Rightarrow> nat" where
  "read_nat s = foldl (\<lambda>a c. 10 * a + digit_val c) 0 s"

text \<open>
  A property key is an array index when it is the canonical decimal form of an integer
  below \<open>2^32 - 1\<close>. Index keys address the slots of an array, and come first, in
  ascending order, among the keys of an object.
\<close>

definition array_index :: "string \<Rightarrow> nat option" where
  "array_index k =
     (let n = read_nat k in if show_nat n = k \<and> n < 4294967295 then Some n else None)"

subsection \<open>Properties\<close>

text \<open>
  \<^verbatim>\<open>key in v\<close> for an array or object \<open>v\<close>, over its own properties. On any other
  value the operator raises a TypeError; the callers below test \<open>is_object\<close> first.

  The prototype chain is not modelled. The names it adds (\<^verbatim>\<open>toString\<close>, \<^verbatim>\<open>constructor\<close>,
  \<^verbatim>\<open>push\<close>, ...) hold functions, whose \<^verbatim>\<open>typeof\<close> is not \<^verbatim>\<open>'object'\<close>: \<^verbatim>\<open>setValue\<close> and
  \<^verbatim>\<open>deleteValue\<close> treat such a name as they treat a missing key, and an assignment to it
  creates an own property, as the model has it. Two names behave otherwise and are kept
  out of the properties proved below by \<open>reserved_key\<close>: \<^verbatim>\<open>__proto__\<close>, an accessor whose
  value is an object, and \<^verbatim>\<open>length\<close>, which an array owns. What \<^verbatim>\<open>getValue\<close> reads under an
  inherited name that the tree does not own is outside the model as well.
\<close>

fun has_property :: "jsvalue \<Rightarrow> string \<Rightarrow> bool" where
  "has_property (Object kvs) k = (map_of kvs k \<noteq> None)"
| "has_property (Array es xs) k =
     (case array_index k of
        Some i \<Rightarrow> i < length es \<and> es ! i \<noteq> None
      | None \<Rightarrow> map_of xs k \<noteq> None)"
| "has_property v k = False"

definition lookup :: "(string \<times> jsvalue) list \<Rightarrow> string \<Rightarrow> jsvalue" where
  "lookup kvs k = (case map_of kvs k of Some v \<Rightarrow> v | None \<Rightarrow> Undefined)"

text \<open>\<^verbatim>\<open>v[key]\<close> for an array or object \<open>v\<close>.\<close>

fun get_property :: "jsvalue \<Rightarrow> string \<Rightarrow> jsvalue" where
  "get_property (Object kvs) k = lookup kvs k"
| "get_property (Array es xs) k =
     (case array_index k of
        Some i \<Rightarrow> (if i < length es then (case es ! i of Some v \<Rightarrow> v | None \<Rightarrow> Undefined)
                   else Undefined)
      | None \<Rightarrow> lookup xs k)"
| "get_property v k = Undefined"

text \<open>A new index key goes before the first key that is not a smaller index.\<close>

fun insert_index :: "nat \<Rightarrow> string \<Rightarrow> jsvalue \<Rightarrow> (string \<times> jsvalue) list \<Rightarrow> (string \<times> jsvalue) list" where
  "insert_index i k v [] = [(k, v)]"
| "insert_index i k v (p # ps) =
     (case array_index (fst p) of
        Some j \<Rightarrow> (if j < i then p # insert_index i k v ps else (k, v) # p # ps)
      | None \<Rightarrow> (k, v) # p # ps)"

fun replace_key :: "string \<Rightarrow> jsvalue \<Rightarrow> (string \<times> jsvalue) list \<Rightarrow> (string \<times> jsvalue) list" where
  "replace_key k v [] = []"
| "replace_key k v (p # ps) = (if fst p = k then (k, v) # ps else p # replace_key k v ps)"

text \<open>Storing a property: an existing key keeps its place, a new one is created.\<close>

definition store :: "string \<Rightarrow> jsvalue \<Rightarrow> (string \<times> jsvalue) list \<Rightarrow> (string \<times> jsvalue) list" where
  "store k v kvs =
     (if map_of kvs k \<noteq> None then replace_key k v kvs
      else (case array_index k of
              Some i \<Rightarrow> insert_index i k v kvs
            | None \<Rightarrow> kvs @ [(k, v)]))"

text \<open>
  \<^verbatim>\<open>v[key] = x\<close>. Class bodies are strict mode code, so the assignment raises a TypeError
  on a primitive as it does on \<^verbatim>\<open>null\<close> and \<^verbatim>\<open>undefined\<close>. Writing a slot past the end of
  an array lengthens it, leaving holes between.
\<close>

fun put_property :: "jsvalue \<Rightarrow> string \<Rightarrow> jsvalue \<Rightarrow> js_error + jsvalue" where
  "put_property (Object kvs) k x = Inr (Object (store k x kvs))"
| "put_property (Array es xs) k x =
     (case array_index k of
        Some i \<Rightarrow>
          (if i < length es then Inr (Array (es[i := Some x]) xs)
           else Inr (Array (es @ replicate (i - length es) None @ [Some x]) xs))
      | None \<Rightarrow> Inr (Array es (store k x xs)))"
| "put_property v k x = Inl TypeError"

text \<open>
  \<^verbatim>\<open>delete v[key]\<close> in strict mode. Deleting a slot of an array leaves a hole and keeps the
  length. On \<^verbatim>\<open>null\<close> and \<^verbatim>\<open>undefined\<close> it raises a TypeError; on a boolean or number there
  is nothing to delete; the characters of a string cannot be deleted.
\<close>

fun delete_property :: "jsvalue \<Rightarrow> string \<Rightarrow> js_error + jsvalue" where
  "delete_property (Object kvs) k = Inr (Object (filter (\<lambda>p. fst p \<noteq> k) kvs))"
| "delete_property (Array es xs) k =
     (case array_index k of
        Some i \<Rightarrow> (if i < length es then Inr (Array (es[i := None]) xs) else Inr (Array es xs))
      | None \<Rightarrow> Inr (Array es (filter (\<lambda>p. fst p \<noteq> k) xs)))"
| "delete_property Undefined k = Inl TypeError"
| "delete_property Null k = Inl TypeError"
| "delete_property (Str s) k =
     (case array_index k of
        Some i \<Rightarrow> (if i < length s then Inl TypeError else Inr (Str s))
      | None \<Rightarrow> Inr (Str s))"
| "delete_property v k = Inr v"

definition reserved_key :: "string \<Rightarrow> bool" where
  "reserved_key k = (k = ''__proto__'' \<or> k = ''length'')"

section \<open>Paths\<close>

text \<open>\<^verbatim>\<open>path.split('.')\<close>: never empty; the empty path splits into one empty segment.\<close>

fun split_dot :: "string \<Rightarrow> string list" where
  "split_dot [] = [[]]"
| "split_dot (c # cs) =
     (if c = CHR ''.'' then [] # split_dot cs
      else (case split_dot cs of
              [] \<Rightarrow> [[c]]
            | segment # segments \<Rightarrow> (c # segment) # segments))"

text \<open>\<^verbatim>\<open>path.startsWith('$')\<close>.\<close>

fun startsWith_dollar :: "string \<Rightarrow> bool" where
  "startsWith_dollar [] = False"
| "startsWith_dollar (c # cs) = (c = CHR ''$'')"

subsection \<open>getValue\<close>

text \<open>The loop of \<^verbatim>\<open>getValue\<close> over the segments; \<^verbatim>\<open>undefined\<close> is its not-found result.\<close>

fun get_walk :: "jsvalue \<Rightarrow> string list \<Rightarrow> jsvalue" where
  "get_walk current [] = current"
| "get_walk current (key # keys) =
     (if is_object current \<and> has_property current key
      then get_walk (get_property current key) keys
      else Undefined)"

text \<open>
  \<^verbatim>\<open>JSONHandler.getValue\<close>. The JSONPath library is not part of the repository: it is the
  parameter \<open>JSONPath\<close>, \<open>None\<close> when it throws.
\<close>

definition getValue :: "(string \<Rightarrow> jsvalue \<Rightarrow> jsvalue list option) \<Rightarrow> jsvalue \<Rightarrow> string \<Rightarrow> js_error + jsvalue" where
  "getValue JSONPath obj path =
     (if startsWith_dollar path then
        (case JSONPath path obj of
           None \<Rightarrow> Inl JSONPathFailed
         | Some result \<Rightarrow> Inr (if length result = 1 then result ! 0 else array_of result))
      else Inr (get_walk obj (split_dot path)))"

subsection \<open>setValue\<close>

text \<open>
  The loop of \<^verbatim>\<open>setValue\<close> and the final assignment. The source mutates the tree in place;
  here each level returns its node with the child replaced, which keeps the child's place
  among the keys. With no segments left the source would assign to \<^verbatim>\<open>keys[-1]\<close>, the key
  \<^verbatim>\<open>undefined\<close>; \<open>split_dot\<close> never produces that case.
\<close>

fun set_walk :: "jsvalue \<Rightarrow> string list \<Rightarrow> jsvalue \<Rightarrow> js_error + jsvalue" where
  "set_walk current [] v = put_property current ''undefined'' v"
| "set_walk current [key] v = put_property current key v"
| "set_walk current (key # keys) v =
     (if \<not> is_object current then Inl TypeError
      else
        (let child =
           (if \<not> has_property current key \<or> typeof (get_property current key) \<noteq> ''object''
            then Object []
            else get_property current key)
         in case set_walk child keys v of
              Inl e \<Rightarrow> Inl e
            | Inr child' \<Rightarrow> put_property current key child'))"

definition setValue :: "jsvalue \<Rightarrow> string \<Rightarrow> jsvalue \<Rightarrow> js_error + jsvalue" where
  "setValue obj path v =
     (if startsWith_dollar path then Inl DotNotationRequired
      else set_walk obj (split_dot path) v)"

subsection \<open>deleteValue\<close>

fun delete_walk :: "jsvalue \<Rightarrow> string list \<Rightarrow> js_error + jsvalue" where
  "delete_walk current [] = delete_property current ''undefined''"
| "delete_walk current [key] = delete_property current key"
| "delete_walk current (key # keys) =
     (if \<not> is_object current then Inl TypeError
      else if \<not> has_property current key \<or> typeof (get_property current key) \<noteq> ''object''
      then Inr current
      else
        (case delete_walk (get_property current key) keys of
           Inl e \<Rightarrow> Inl e
         | Inr child' \<Rightarrow> put_property current key child'))"

definition deleteValue :: "jsvalue \<Rightarrow> string \<Rightarrow> js_error + jsvalue" where
  "deleteValue obj path = delete_walk obj (split_dot path)"

subsection \<open>Notions used to state the properties of paths\<close>

text \<open>
  \<open>walks current keys\<close>: the loop of \<^verbatim>\<open>getValue\<close> finds every segment, each as an own
  property of an array or object; the path resolves.
  \<open>meets_null current keys\<close>: the loop of \<^verbatim>\<open>setValue\<close> and \<^verbatim>\<open>deleteValue\<close>, which runs over
  all segments but the last, steps onto a \<^verbatim>\<open>null\<close>.
  \<open>nest keys v\<close>: the chain of one-key objects \<^verbatim>\<open>{k1: {k2: ... v}}\<close>.
  \<open>plain_path path\<close>: no segment is a reserved key.
\<close>

fun walks :: "jsvalue \<Rightarrow> string list \<Rightarrow> bool" where
  "walks current [] = True"
| "walks current (key # keys) =
     (is_object current \<and> has_property current key \<and> walks (get_property current key) keys)"

fun meets_null :: "jsvalue \<Rightarrow> string list \<Rightarrow> bool" where
  "meets_null current [] = False"
| "meets_null current [key] = False"
| "meets_null current (key # keys) =
     (has_property current key \<and>
      (get_property current key = Null \<or> meets_null (get_property current key) keys))"

fun nest :: "string list \<Rightarrow> jsvalue \<Rightarrow> jsvalue" where
  "nest [] v = v"
| "nest (key # keys) v = Object [(key, nest keys v)]"

definition plain_path :: "string \<Rightarrow> bool" where
  "plain_path path = list_all (\<lambda>k. \<not> reserved_key k) (split_dot path)"


section \<open>Enumerating and summarising\<close>

text \<open>A value in a slot or under a key is smaller than the array or object that holds it:
  the recursion of the walks below ends.\<close>

lemma size_element: "Some v \<in> set es \<Longrightarrow> size v < size_list (size_option size) es"
  by (induction es) auto

lemma size_entry: "entry \<in> set kvs \<Longrightarrow> size (snd entry) < size_list (size_prod (\<lambda>x. 0) size) kvs"
  by (induction kvs) auto


text \<open>\<^verbatim>\<open>obj[i]\<close> in a loop over the indices of an array: a hole reads as \<^verbatim>\<open>undefined\<close>.\<close>

fun slot_value :: "jsvalue option \<Rightarrow> jsvalue" where
  "slot_value (Some v) = v"
| "slot_value None = Undefined"

text \<open>\<^verbatim>\<open>prefix ? `${prefix}[${i}]` : `[${i}]`\<close>: the empty string is falsy.\<close>

definition item_path :: "string \<Rightarrow> nat \<Rightarrow> string" where
  "item_path prefix i =
     (if prefix \<noteq> [] then prefix @ ''['' @ show_nat i @ '']'' else ''['' @ show_nat i @ '']'')"

text \<open>\<^verbatim>\<open>prefix ? `${prefix}.${key}` : key\<close>.\<close>

definition key_path :: "string \<Rightarrow> string \<Rightarrow> string" where
  "key_path prefix key = (if prefix \<noteq> [] then prefix @ ''.'' @ key else key)"


subsection \<open>getAllKeys\<close>


subsection \<open>getStructure\<close>





text \<open>
  To say where a summary holds what: a step leads from an object to the value under one of
  its keys, or from an array to one of its elements. \<open>sampled_child\<close> is the step in the
  data, for a key among the first 20 and an element among the first 3, the ones
  \<^verbatim>\<open>getStructure\<close> summarises (the key \<^verbatim>\<open>...\<close> left aside when the marker of the further keys
  takes its place). \<open>summary_child\<close> is the same step in the summary, which is an object
  with the same keys, or the pair of a label and the array of the summaries of the
  elements. \<open>descend\<close> takes the steps one after the other.
\<close>

datatype step = Key string | Index nat




section \<open>Keyword search\<close>

subsection \<open>Text of values\<close>

definition show_int :: "int \<Rightarrow> string" where
  "show_int n = (if n < 0 then ''-'' @ show_nat (nat (- n)) else show_nat (nat n))"

text \<open>\<^verbatim>\<open>arr.join(sep)\<close> over the texts of the elements.\<close>

fun join :: "string \<Rightarrow> string list \<Rightarrow> string" where
  "join sep [] = []"
| "join sep [s] = s"
| "join sep (s # ss) = s @ sep @ join sep ss"

text \<open>The results of the conversions of the elements, in order, or the first exception.\<close>

fun collect :: "(js_error + 'a) list \<Rightarrow> js_error + 'a list" where
  "collect [] = Inr []"
| "collect (Inl e # rs) = Inl e"
| "collect (Inr x # rs) = (case collect rs of Inl e \<Rightarrow> Inl e | Inr xs \<Rightarrow> Inr (x # xs))"

text \<open>
  \<^verbatim>\<open>String(value)\<close>. An object is converted by the \<^verbatim>\<open>toString\<close> it inherits, which gives
  \<^verbatim>\<open>[object Object]\<close>; an own property \<^verbatim>\<open>toString\<close> hides it, and since no value of a document
  is callable, the conversion then falls through \<^verbatim>\<open>valueOf\<close> and raises a TypeError. The
  same holds of an array that has a named property \<^verbatim>\<open>toString\<close>. Otherwise the
  \<^verbatim>\<open>toString\<close> of arrays calls \<^verbatim>\<open>join\<close>: the texts of the elements joined by commas, where
  \<^verbatim>\<open>null\<close>, \<^verbatim>\<open>undefined\<close> and a hole give the empty text and the conversion of an element may
  raise in turn; with a named property \<^verbatim>\<open>join\<close> in the way it gives \<^verbatim>\<open>[object Array]\<close>.
\<close>

function to_string :: "jsvalue \<Rightarrow> js_error + string" where
  "to_string Undefined = Inr ''undefined''"
| "to_string Null = Inr ''null''"
| "to_string (Bool b) = Inr (if b then ''true'' else ''false'')"
| "to_string (Number n) = Inr (show_int (sint n))"
| "to_string (Str s) = Inr s"
| "to_string (Array es xs) =
     (if map_of xs ''toString'' \<noteq> None then Inl TypeError
      else if map_of xs ''join'' \<noteq> None then Inr ''[object Array]''
      else
        (case collect (map (\<lambda>e. case e of
                                   None \<Rightarrow> Inr []
                                 | Some v \<Rightarrow>
                                     (if v = Null \<or> v = Undefined then Inr [] else to_string v))
                         es) of
           Inl e \<Rightarrow> Inl e
         | Inr parts \<Rightarrow> Inr (join '','' parts)))"
| "to_string (Object kvs) =
     (if map_of kvs ''toString'' \<noteq> None then Inl TypeError else Inr ''[object Object]'')"
  by pat_completeness auto
termination
  by (relation "measure size") (auto dest: size_element)

text \<open>\<^verbatim>\<open>getPreview(value)\<close>; \<^verbatim>\<open>String(value)\<close> is reached by the primitive values only.\<close>

fun getPreview :: "jsvalue \<Rightarrow> string" where
  "getPreview (Str s) = (if length s > 100 then take 100 s @ ''...'' else s)"
| "getPreview (Array es xs) = ''Array('' @ show_nat (length es) @ '')''"
| "getPreview (Object kvs) = ''Object('' @ show_nat (length kvs) @ '' keys)''"
| "getPreview Undefined = ''undefined''"
| "getPreview Null = ''null''"
| "getPreview (Bool b) = (if b then ''true'' else ''false'')"
| "getPreview (Number n) = show_int (sint n)"

subsection \<open>Matching\<close>

text \<open>\<^verbatim>\<open>text.includes(term)\<close>.\<close>

fun str_includes :: "string \<Rightarrow> string \<Rightarrow> bool" where
  "str_includes [] needle = (needle = [])"
| "str_includes (c # cs) needle =
     (take (length needle) (c # cs) = needle \<or> str_includes cs needle)"

text \<open>
  \<^verbatim>\<open>toLowerCase\<close> on code units below 256. The capital letters there are A to Z (65 to 90)
  and the accented capitals from 192 to 222 without the multiplication sign 215; the small
  letter of each is 32 above it. Every other code unit stays as it is.
\<close>

definition lower_char :: "char \<Rightarrow> char" where
  "lower_char c =
     (let n = (of_char c :: nat) in
      if (65 \<le> n \<and> n \<le> 90) \<or> (192 \<le> n \<and> n \<le> 214) \<or> (216 \<le> n \<and> n \<le> 222)
      then char_of (n + 32)
      else c)"

definition toLowerCase :: "string \<Rightarrow> string" where
  "toLowerCase s = map lower_char s"

text \<open>
  The search pattern is the keyword itself or a \<^verbatim>\<open>RegExp\<close> object compiled from it. The
  engine is not part of the repository: a compiled pattern is a function that, given a
  text and a start index, returns the end index of the leftmost match that starts at or
  after the start index, if there is one. The object carries \<^verbatim>\<open>lastIndex\<close>, which
  \<^verbatim>\<open>test\<close> reads and writes because the pattern is compiled with the flag \<^verbatim>\<open>g\<close>.
\<close>

type_synonym regexp = "string \<Rightarrow> nat \<Rightarrow> nat option"

datatype pattern = Keyword string | Compiled regexp

text \<open>\<^verbatim>\<open>term.test(text)\<close> for a pattern with the flag \<^verbatim>\<open>g\<close>: the result and the new
  \<^verbatim>\<open>lastIndex\<close>.\<close>

definition regexp_test :: "regexp \<Rightarrow> string \<Rightarrow> nat \<Rightarrow> bool \<times> nat" where
  "regexp_test rx text lastIndex =
     (if lastIndex > length text then (False, 0)
      else (case rx text lastIndex of
              None \<Rightarrow> (False, 0)
            | Some e \<Rightarrow> (True, e)))"

record search_options =
  searchKeys :: bool
  searchValues :: bool
  caseSensitive :: bool
  regex :: bool
  maxResults :: nat

text \<open>The defaults of \<^verbatim>\<open>searchKeyword\<close>.\<close>

definition default_options :: search_options where
  "default_options =
     \<lparr>searchKeys = True, searchValues = True, caseSensitive = False, regex = False,
      maxResults = 100\<rparr>"

datatype match_type = KeyMatch | ValueMatch

record match =
  mtype :: match_type
  mpath :: string
  mkey :: string
  mvalue :: jsvalue

text \<open>What the closure \<^verbatim>\<open>search\<close> mutates: the array \<^verbatim>\<open>results\<close> and the pattern's
  \<^verbatim>\<open>lastIndex\<close>.\<close>

record search_state =
  results :: "match list"
  lastIndex :: nat

text \<open>The test of a text against a keyword, with or without the case of letters.\<close>

definition contains_keyword :: "search_options \<Rightarrow> string \<Rightarrow> string \<Rightarrow> bool" where
  "contains_keyword opts text needle =
     (if caseSensitive opts then str_includes text needle
      else str_includes (toLowerCase text) (toLowerCase needle))"

text \<open>\<^verbatim>\<open>matches(text, term)\<close>, with the state it leaves.\<close>

fun matches :: "search_options \<Rightarrow> pattern \<Rightarrow> string \<Rightarrow> search_state \<Rightarrow> bool \<times> search_state" where
  "matches opts (Keyword needle) text st = (contains_keyword opts text needle, st)"
| "matches opts (Compiled rx) text st =
     (let (found, li) = regexp_test rx text (lastIndex st) in (found, st\<lparr>lastIndex := li\<rparr>))"

definition push :: "match \<Rightarrow> search_state \<Rightarrow> search_state" where
  "push m st = st\<lparr>results := results st @ [m]\<rparr>"

text \<open>
  The handlers differ in the text of a value that is matched: \<^verbatim>\<open>JSONHandler\<close> matches a
  value only if \<^verbatim>\<open>typeof value === 'string'\<close>, \<^verbatim>\<open>YAMLHandler\<close> matches \<^verbatim>\<open>String(value)\<close>, whose
  exception ends the search.
\<close>

fun json_value_text :: "jsvalue \<Rightarrow> js_error + string option" where
  "json_value_text (Str s) = Inr (Some s)"
| "json_value_text v = Inr None"

definition yaml_value_text :: "jsvalue \<Rightarrow> js_error + string option" where
  "yaml_value_text v = (case to_string v of Inl e \<Rightarrow> Inl e | Inr s \<Rightarrow> Inr (Some s))"

text \<open>The two tests in the loop over the keys of an object, in the order of the source:
  the key, then the value. \<^verbatim>\<open>&&\<close> evaluates \<^verbatim>\<open>matches\<close> only when the option is on, and the
  text of the value is taken only when \<^verbatim>\<open>searchValues\<close> is on.\<close>

definition match_entry ::
  "(jsvalue \<Rightarrow> js_error + string option) \<Rightarrow> search_options \<Rightarrow> pattern \<Rightarrow> string \<Rightarrow> string \<Rightarrow>
   jsvalue \<Rightarrow> search_state \<Rightarrow> js_error + search_state" where
  "match_entry value_text opts pat fullPath key v st =
     (let st1 =
        (if searchKeys opts then
           (let (found, st') = matches opts pat key st in
            if found
            then push \<lparr>mtype = KeyMatch, mpath = fullPath, mkey = key,
                       mvalue = Str (getPreview v)\<rparr> st'
            else st')
         else st)
      in
        (if searchValues opts then
           (case value_text v of
              Inl e \<Rightarrow> Inl e
            | Inr None \<Rightarrow> Inr st1
            | Inr (Some text) \<Rightarrow>
                (let (found, st') = matches opts pat text st1 in
                 if found
                 then Inr (push \<lparr>mtype = ValueMatch, mpath = fullPath, mkey = key,
                                 mvalue = v\<rparr> st')
                 else Inr st'))
         else Inr st1))"

subsection \<open>The walk\<close>

text \<open>A loop whose body may raise: it runs the body on each element in turn and stops at
  the first exception.\<close>

fun fold_err :: "('a \<Rightarrow> 's \<Rightarrow> js_error + 's) \<Rightarrow> 'a list \<Rightarrow> 's \<Rightarrow> js_error + 's" where
  "fold_err f [] s = Inr s"
| "fold_err f (x # xs) s = (case f x s of Inl e \<Rightarrow> Inl e | Inr s' \<Rightarrow> fold_err f xs s')"

lemma fold_err_cong [fundef_cong]:
  "xs = ys \<Longrightarrow> s = t \<Longrightarrow> (\<And>x s. x \<in> set ys \<Longrightarrow> f x s = g x s) \<Longrightarrow>
   fold_err f xs s = fold_err g ys t"
proof (induction ys arbitrary: xs s t)
  case Nil
  then show ?case by simp
next
  case (Cons y ys)
  then show ?case by (cases "g y t") auto
qed

text \<open>
  The closure \<^verbatim>\<open>search(current, path)\<close>. The number of results is compared with
  \<^verbatim>\<open>maxResults\<close> on entry, once for each array or object. The bound is only compared, so
  one below zero acts as zero and a fraction as the next integer: it is a natural number
  here.
\<close>

function search ::
  "(jsvalue \<Rightarrow> js_error + string option) \<Rightarrow> search_options \<Rightarrow> pattern \<Rightarrow> jsvalue \<Rightarrow> string \<Rightarrow>
   search_state \<Rightarrow> js_error + search_state" where
  "search value_text opts pat (Array es xs) path st =
     (if length (results st) \<ge> maxResults opts then Inr st
      else
        fold_err (\<lambda>i st. search value_text opts pat (slot_value (es ! i)) (item_path path i) st)
          [0 ..< length es] st)"
| "search value_text opts pat (Object kvs) path st =
     (if length (results st) \<ge> maxResults opts then Inr st
      else
        fold_err (\<lambda>entry st.
            let fullPath = key_path path (fst entry) in
            case match_entry value_text opts pat fullPath (fst entry) (snd entry) st of
              Inl e \<Rightarrow> Inl e
            | Inr st2 \<Rightarrow>
                (if is_object (snd entry)
                 then search value_text opts pat (snd entry) fullPath st2
                 else Inr st2))
          kvs st)"
| "search value_text opts pat Undefined path st = Inr st"
| "search value_text opts pat Null path st = Inr st"
| "search value_text opts pat (Bool b) path st = Inr st"
| "search value_text opts pat (Number n) path st = Inr st"
| "search value_text opts pat (Str s) path st = Inr st"
  by pat_completeness auto
termination
proof (relation "measure (\<lambda>(value_text, opts, pat, current, path, st). size current)")
  fix es :: "jsvalue option list" and xs :: "(string \<times> jsvalue) list" and i :: nat
    and value_text :: "jsvalue \<Rightarrow> js_error + string option" and opts :: search_options
    and pat :: pattern and path :: string and st st' :: search_state
  assume "i \<in> set [0 ..< length es]"
  then have m: "es ! i \<in> set es" by simp
  show "((value_text, opts, pat, slot_value (es ! i), item_path path i, st'),
         (value_text, opts, pat, Array es xs, path, st))
        \<in> measure (\<lambda>(value_text, opts, pat, current, path, st). size current)"
  proof (cases "es ! i")
    case None
    then show ?thesis by simp
  next
    case (Some v)
    with m have "Some v \<in> set es" by simp
    from size_element [OF this] Some show ?thesis by simp
  qed
qed (auto dest: size_entry)

text \<open>
  \<^verbatim>\<open>searchKeyword(obj, keyword, options)\<close>. \<open>RegExp keyword ignoreCase\<close> stands for
  \<^verbatim>\<open>new RegExp(keyword, caseSensitive ? 'g' : 'gi')\<close>, \<open>None\<close> when the constructor throws.
  Whatever is raised inside is caught and raised again as the failure of the search.
\<close>

definition searchKeyword_with ::
  "(jsvalue \<Rightarrow> js_error + string option) \<Rightarrow> (string \<Rightarrow> bool \<Rightarrow> regexp option) \<Rightarrow> jsvalue \<Rightarrow>
   string \<Rightarrow> search_options \<Rightarrow> js_error + match list" where
  "searchKeyword_with value_text RegExp obj keyword opts =
     (case (if regex opts
            then map_option Compiled (RegExp keyword (\<not> caseSensitive opts))
            else Some (Keyword keyword)) of
        None \<Rightarrow> Inl InvalidPattern
      | Some searchPattern \<Rightarrow>
          (case search value_text opts searchPattern obj [] \<lparr>results = [], lastIndex = 0\<rparr> of
             Inl e \<Rightarrow> Inl e
           | Inr st \<Rightarrow> Inr (results st)))"

text \<open>\<^verbatim>\<open>JSONHandler.searchKeyword\<close> and \<^verbatim>\<open>YAMLHandler.searchKeyword\<close>.\<close>

definition searchKeyword ::
  "(string \<Rightarrow> bool \<Rightarrow> regexp option) \<Rightarrow> jsvalue \<Rightarrow> string \<Rightarrow> search_options \<Rightarrow> js_error + match list" where
  "searchKeyword = searchKeyword_with json_value_text"

definition yaml_searchKeyword ::
  "(string \<Rightarrow> bool \<Rightarrow> regexp option) \<Rightarrow> jsvalue \<Rightarrow> string \<Rightarrow> search_options \<Rightarrow> js_error + match list" where
  "yaml_searchKeyword = searchKeyword_with yaml_value_text"

text \<open>
  For the examples: the pattern compiled from a keyword that has no metacharacter matches
  the keyword literally, ignoring the case of letters under the flag \<^verbatim>\<open>i\<close>.
\<close>

fun find_from :: "string \<Rightarrow> string \<Rightarrow> nat \<Rightarrow> nat \<Rightarrow> nat option" where
  "find_from needle text i 0 =
     (if take (length needle) (drop i text) = needle then Some (i + length needle) else None)"
| "find_from needle text i (Suc n) =
     (if take (length needle) (drop i text) = needle then Some (i + length needle)
      else find_from needle text (Suc i) n)"

definition literal_RegExp :: "string \<Rightarrow> bool \<Rightarrow> regexp option" where
  "literal_RegExp keyword ignoreCase =
     Some (\<lambda>text start.
        if ignoreCase
        then find_from (toLowerCase keyword) (toLowerCase text) start (length text - start)
        else find_from keyword text start (length text - start))"

text \<open>
  To state what the search collects with a keyword: a value Match is sound when
  \<^verbatim>\<open>searchValues\<close> is on and the text the handler takes of the value it holds contains the
  keyword; \<open>grows st st'\<close> when the results of \<open>st'\<close> are those of \<open>st\<close> followed by
  sound matches.
\<close>

definition sound_match ::
  "(jsvalue \<Rightarrow> js_error + string option) \<Rightarrow> search_options \<Rightarrow> string \<Rightarrow> match \<Rightarrow> bool" where
  "sound_match value_text opts kw m =
     (mtype m = KeyMatch \<or>
      (searchValues opts \<and>
       (case value_text (mvalue m) of
          Inr (Some text) \<Rightarrow> contains_keyword opts text kw
        | _ \<Rightarrow> False)))"

definition grows ::
  "(jsvalue \<Rightarrow> js_error + string option) \<Rightarrow> search_options \<Rightarrow> string \<Rightarrow> search_state \<Rightarrow>
   search_state \<Rightarrow> bool" where
  "grows value_text opts kw st st' =
     (take (length (results st)) (results st') = results st \<and>
      list_all (sound_match value_text opts kw) (drop (length (results st)) (results st')))"

text \<open>
  The search raises only where the handler's text of a value does. \<open>texts_defined\<close> holds
  of a tree when the text of the value of every entry of every object in it, over arrays
  and objects, is taken without an exception.
\<close>

function texts_defined :: "(jsvalue \<Rightarrow> js_error + string option) \<Rightarrow> jsvalue \<Rightarrow> bool" where
  "texts_defined value_text (Array es xs) =
     list_all (\<lambda>e. texts_defined value_text (slot_value e)) es"
| "texts_defined value_text (Object kvs) =
     list_all (\<lambda>entry. \<not> isl (value_text (snd entry)) \<and>
                        texts_defined value_text (snd entry)) kvs"
| "texts_defined value_text Undefined = True"
| "texts_defined value_text Null = True"
| "texts_defined value_text (Bool b) = True"
| "texts_defined value_text (Number n) = True"
| "texts_defined value_text (Str s) = True"
  by pat_completeness auto
termination
proof (relation "measure (\<lambda>(value_text, current). size current)")
  fix es :: "jsvalue option list" and xs :: "(string \<times> jsvalue) list"
    and e :: "jsvalue option"
    and value_text :: "jsvalue \<Rightarrow> js_error + string option"
  assume m: "e \<in> set es"
  show "((value_text, slot_value e), (value_text, Array es xs))
        \<in> measure (\<lambda>(value_text, current). size current)"
  proof (cases e)
    case None
    then show ?thesis by simp
  next
    case (Some v)
    with m have "Some v \<in> set es" by simp
    from size_element [OF this] Some show ?thesis by simp
  qed
qed (auto dest: size_entry)

section \<open>Properties of paths\<close>

lemma digit_char_values:
  "digit_char 0 = CHR 0x30" "digit_char (Suc 0) = CHR 0x31" "digit_char 1 = CHR 0x31"
  "digit_char 2 = CHR 0x32" "digit_char 3 = CHR 0x33" "digit_char 4 = CHR 0x34"
  "digit_char 5 = CHR 0x35" "digit_char 6 = CHR 0x36" "digit_char 7 = CHR 0x37"
  "digit_char 8 = CHR 0x38" "digit_char 9 = CHR 0x39"
  by code_simp+

text \<open>The equations that evaluate the path operations on a concrete tree.\<close>

lemmas eval_simps =
  setValue_def deleteValue_def getValue_def lookup_def store_def array_index_def read_nat_def
  digit_val_def show_nat.simps digit_char_values plain_path_def reserved_key_def

lemma split_dot_not_Nil [simp]: "split_dot p \<noteq> []"
  by (induction p) (auto split: list.splits)

lemma typeof_object: "typeof v = ''object'' \<longleftrightarrow> (v = Null \<or> is_object v)"
  by (cases v) auto

lemma map_of_replace_key:
  "map_of (replace_key k v kvs) k' = (if k' = k \<and> map_of kvs k \<noteq> None then Some v else map_of kvs k')"
  by (induction kvs) auto

lemma map_of_insert_index:
  "map_of kvs k = None \<Longrightarrow> map_of (insert_index i k v kvs) k' = (if k' = k then Some v else map_of kvs k')"
  by (induction kvs) (auto split: option.splits)

lemma map_of_store: "map_of (store k v kvs) k' = (if k' = k then Some v else map_of kvs k')"
  by (auto simp: store_def map_of_replace_key map_of_insert_index map_add_def split: option.splits)

lemma lookup_store: "lookup (store k v kvs) k = v"
  by (simp add: lookup_def map_of_store)

lemma digit_val_digit_char: "d < 10 \<Longrightarrow> digit_val (digit_char d) = d"
  by (simp add: digit_val_def digit_char_def)

lemma read_nat_snoc: "read_nat (s @ [c]) = 10 * read_nat s + digit_val c"
  by (simp add: read_nat_def)

lemma read_show_nat: "read_nat (show_nat n) = n"
proof (induction n rule: show_nat.induct)
  case (1 n)
  show ?case
  proof (cases "n < 10")
    case True
    then show ?thesis
      by (subst show_nat.simps) (simp add: read_nat_def digit_val_digit_char)
  next
    case False
    then have "read_nat (show_nat (n div 10)) = n div 10" using 1 by simp
    with False show ?thesis
      by (subst show_nat.simps) (simp add: read_nat_snoc digit_val_digit_char)
  qed
qed

lemma array_index_show_nat: "i < 4294967295 \<Longrightarrow> array_index (show_nat i) = Some i"
  by (simp add: array_index_def read_show_nat)

lemma put_property_Inr:
  "put_property c k x = Inr c' \<Longrightarrow> is_object c \<and> is_object c' \<and> has_property c' k \<and> get_property c' k = x"
  by (cases c) (auto simp: map_of_store lookup_store nth_append split: option.splits if_splits)

lemma put_property_total: "is_object c \<Longrightarrow> \<exists>c'. put_property c k x = Inr c'"
  by (cases c) (auto split: option.splits)

lemma set_walk_Cons:
  "keys \<noteq> [] \<Longrightarrow> set_walk current (key # keys) v =
     (if \<not> is_object current then Inl TypeError
      else
        (let child =
           (if \<not> has_property current key \<or> typeof (get_property current key) \<noteq> ''object''
            then Object []
            else get_property current key)
         in case set_walk child keys v of
              Inl e \<Rightarrow> Inl e
            | Inr child' \<Rightarrow> put_property current key child'))"
  by (cases keys) simp_all

lemma delete_walk_Cons:
  "keys \<noteq> [] \<Longrightarrow> delete_walk current (key # keys) =
     (if \<not> is_object current then Inl TypeError
      else if \<not> has_property current key \<or> typeof (get_property current key) \<noteq> ''object''
      then Inr current
      else
        (case delete_walk (get_property current key) keys of
           Inl e \<Rightarrow> Inl e
         | Inr child' \<Rightarrow> put_property current key child'))"
  by (cases keys) simp_all


lemma meets_null_Cons:
  "keys \<noteq> [] \<Longrightarrow> meets_null current (key # keys) =
     (has_property current key \<and>
      (get_property current key = Null \<or> meets_null (get_property current key) keys))"
  by (cases keys) simp_all

lemma meets_null_empty_object [simp]: "\<not> meets_null (Object []) keys"
  by (induction "Object []" keys rule: meets_null.induct) simp_all

lemma set_walk_reads_back:
  "set_walk c keys v = Inr c' \<Longrightarrow> keys \<noteq> [] \<Longrightarrow> walks c' keys \<and> get_walk c' keys = v"
proof (induction keys arbitrary: c c')
  case Nil
  then show ?case by simp
next
  case (Cons key keys)
  show ?case
  proof (cases "keys = []")
    case True
    then show ?thesis using Cons.prems put_property_Inr [of c key v c'] by simp
  next
    case False
    define child where "child =
      (if \<not> has_property c key \<or> typeof (get_property c key) \<noteq> ''object''
       then Object [] else get_property c key)"
    from Cons.prems False obtain child' where
      c: "set_walk child keys v = Inr child'" and p: "put_property c key child' = Inr c'"
      unfolding child_def by (auto simp: set_walk_Cons Let_def split: if_splits sum.splits)
    have "walks child' keys \<and> get_walk child' keys = v"
      using Cons.IH [OF c False] .
    then show ?thesis using put_property_Inr [OF p] by simp
  qed
qed

lemma set_walk_total:
  "is_object c \<Longrightarrow> \<not> meets_null c keys \<Longrightarrow> \<exists>c'. set_walk c keys v = Inr c'"
proof (induction keys arbitrary: c)
  case Nil
  then show ?case by (simp add: put_property_total)
next
  case (Cons key keys)
  show ?case
  proof (cases "keys = []")
    case True
    then show ?thesis using Cons.prems by (simp add: put_property_total)
  next
    case False
    define child where "child =
      (if \<not> has_property c key \<or> typeof (get_property c key) \<noteq> ''object''
       then Object [] else get_property c key)"
    have "is_object child \<and> \<not> meets_null child keys"
      using Cons.prems False unfolding child_def
      by (auto simp: typeof_object meets_null_Cons)
    then obtain child' where "set_walk child keys v = Inr child'"
      using Cons.IH by blast
    then show ?thesis
      using Cons.prems(1) False put_property_total [of c key child']
      unfolding child_def by (auto simp: set_walk_Cons Let_def)
  qed
qed


lemma filter_absent: "map_of kvs k = None \<Longrightarrow> filter (\<lambda>p. fst p \<noteq> k) kvs = kvs"
  by (induction kvs) (auto split: if_splits)

lemma map_of_filter_key: "map_of (filter (\<lambda>p. fst p \<noteq> k) kvs) k = None"
  by (induction kvs) auto

lemma replace_key_same: "map_of kvs k = Some v \<Longrightarrow> replace_key k v kvs = kvs"
  by (induction kvs) (auto split: if_splits)

lemma delete_property_absent:
  "is_object c \<Longrightarrow> \<not> has_property c k \<Longrightarrow> delete_property c k = Inr c"
  by (cases c) (auto simp: filter_absent list_update_same_conv split: option.splits)

lemma delete_property_Inr:
  "delete_property c k = Inr c' \<Longrightarrow> \<not> has_property c' k \<and> is_object c' = is_object c"
  by (cases c) (auto simp: map_of_filter_key split: option.splits if_splits)

lemma delete_property_total: "is_object c \<Longrightarrow> \<exists>c'. delete_property c k = Inr c'"
  by (cases c) (auto split: option.splits)

lemma put_property_same:
  "is_object c \<Longrightarrow> has_property c k \<Longrightarrow> put_property c k (get_property c k) = Inr c"
  by (cases c)
     (auto simp: store_def lookup_def replace_key_same list_update_same_conv split: option.splits)

lemma delete_walk_total:
  "is_object c \<Longrightarrow> \<not> meets_null c keys \<Longrightarrow> \<exists>c'. delete_walk c keys = Inr c'"
proof (induction keys arbitrary: c)
  case Nil
  then show ?case by (simp add: delete_property_total)
next
  case (Cons key keys)
  show ?case
  proof (cases "keys = []")
    case True
    then show ?thesis using Cons.prems by (simp add: delete_property_total)
  next
    case False
    show ?thesis
    proof (cases "\<not> has_property c key \<or> typeof (get_property c key) \<noteq> ''object''")
      case True
      then show ?thesis using Cons.prems(1) False by (simp add: delete_walk_Cons)
    next
      case present: False
      then have "is_object (get_property c key) \<and> \<not> meets_null (get_property c key) keys"
        using Cons.prems False by (auto simp: typeof_object meets_null_Cons)
      then obtain child' where "delete_walk (get_property c key) keys = Inr child'"
        using Cons.IH by blast
      then show ?thesis
        using Cons.prems(1) False present put_property_total [of c key child']
        by (auto simp: delete_walk_Cons)
    qed
  qed
qed

lemma delete_walk_absent:
  "is_object c \<Longrightarrow> \<not> meets_null c keys \<Longrightarrow> keys \<noteq> [] \<Longrightarrow> \<not> walks c keys \<Longrightarrow>
   delete_walk c keys = Inr c"
proof (induction keys arbitrary: c)
  case Nil
  then show ?case by simp
next
  case (Cons key keys)
  show ?case
  proof (cases "keys = []")
    case True
    then show ?thesis using Cons.prems by (simp add: delete_property_absent)
  next
    case False
    show ?thesis
    proof (cases "\<not> has_property c key \<or> typeof (get_property c key) \<noteq> ''object''")
      case True
      then show ?thesis using Cons.prems(1) False by (simp add: delete_walk_Cons)
    next
      case present: False
      then have "is_object (get_property c key) \<and> \<not> meets_null (get_property c key) keys
                 \<and> \<not> walks (get_property c key) keys"
        using Cons.prems False by (auto simp: typeof_object meets_null_Cons)
      then have "delete_walk (get_property c key) keys = Inr (get_property c key)"
        using Cons.IH False by blast
      then show ?thesis
        using Cons.prems(1) False present
        by (auto simp: delete_walk_Cons put_property_same)
    qed
  qed
qed

lemma delete_walk_removes:
  "delete_walk c keys = Inr c' \<Longrightarrow> keys \<noteq> [] \<Longrightarrow> \<not> walks c' keys"
proof (induction keys arbitrary: c c')
  case Nil
  then show ?case by simp
next
  case (Cons key keys)
  show ?case
  proof (cases "keys = []")
    case True
    then show ?thesis using Cons.prems delete_property_Inr [of c key c'] by simp
  next
    case False
    show ?thesis
    proof (cases "\<not> has_property c key \<or> typeof (get_property c key) \<noteq> ''object''")
      case True
      then have "c' = c" using Cons.prems False by (auto simp: delete_walk_Cons split: if_splits)
      moreover have "\<not> walks c (key # keys)"
      proof (cases "has_property c key")
        case True
        with \<open>\<not> has_property c key \<or> typeof (get_property c key) \<noteq> ''object''\<close>
        have "\<not> is_object (get_property c key)" by (auto simp: typeof_object)
        then show ?thesis using False by (cases keys) auto
      next
        case False
        then show ?thesis by simp
      qed
      ultimately show ?thesis by simp
    next
      case present: False
      from Cons.prems False present obtain child' where
        d: "delete_walk (get_property c key) keys = Inr child'" and
        p: "put_property c key child' = Inr c'"
        by (auto simp: delete_walk_Cons split: if_splits sum.splits)
      have "\<not> walks child' keys" using Cons.IH [OF d False] .
      then show ?thesis using put_property_Inr [OF p] by simp
    qed
  qed
qed

text \<open>Walking an existing prefix, then writing or deleting in the node it reaches.\<close>

lemma walks_is_object: "walks c keys \<Longrightarrow> keys \<noteq> [] \<Longrightarrow> is_object c"
  by (cases keys) auto

lemma set_walk_at:
  "walks c pre \<Longrightarrow> is_object (get_walk c pre) \<Longrightarrow> rest \<noteq> [] \<Longrightarrow>
   set_walk (get_walk c pre) rest x = Inr node' \<Longrightarrow>
   \<exists>c'. set_walk c (pre @ rest) x = Inr c' \<and> walks c' pre \<and> get_walk c' pre = node'"
proof (induction pre arbitrary: c)
  case Nil
  then show ?case by simp
next
  case (Cons key pre)
  let ?child = "get_property c key"
  have c: "is_object c" "has_property c key" "walks ?child pre"
    using Cons.prems(1) by auto
  have o: "is_object ?child"
    using Cons.prems(2) c walks_is_object [of ?child pre] by (cases "pre = []") auto
  have g: "get_walk ?child pre = get_walk c (key # pre)" using c by simp
  obtain child' where
    s: "set_walk ?child (pre @ rest) x = Inr child'" and w: "walks child' pre"
    and n: "get_walk child' pre = node'"
    using Cons.IH [OF c(3) _ Cons.prems(3)] Cons.prems(2,4) g by auto
  obtain c' where p: "put_property c key child' = Inr c'"
    using put_property_total [OF c(1)] by blast
  have "set_walk c ((key # pre) @ rest) x = Inr c'"
    using c o s p Cons.prems(3) by (simp add: set_walk_Cons typeof_object)
  then show ?case using put_property_Inr [OF p] w n by auto
qed

lemma delete_walk_at:
  "walks c pre \<Longrightarrow> is_object (get_walk c pre) \<Longrightarrow> rest \<noteq> [] \<Longrightarrow>
   delete_walk (get_walk c pre) rest = Inr node' \<Longrightarrow>
   \<exists>c'. delete_walk c (pre @ rest) = Inr c' \<and> walks c' pre \<and> get_walk c' pre = node'"
proof (induction pre arbitrary: c)
  case Nil
  then show ?case by simp
next
  case (Cons key pre)
  let ?child = "get_property c key"
  have c: "is_object c" "has_property c key" "walks ?child pre"
    using Cons.prems(1) by auto
  have o: "is_object ?child"
    using Cons.prems(2) c walks_is_object [of ?child pre] by (cases "pre = []") auto
  have g: "get_walk ?child pre = get_walk c (key # pre)" using c by simp
  obtain child' where
    s: "delete_walk ?child (pre @ rest) = Inr child'" and w: "walks child' pre"
    and n: "get_walk child' pre = node'"
    using Cons.IH [OF c(3) _ Cons.prems(3)] Cons.prems(2,4) g by auto
  obtain c' where p: "put_property c key child' = Inr c'"
    using put_property_total [OF c(1)] by blast
  have "delete_walk c ((key # pre) @ rest) = Inr c'"
    using c o s p Cons.prems(3) by (simp add: delete_walk_Cons typeof_object)
  then show ?case using put_property_Inr [OF p] w n by auto
qed

lemma set_walk_fresh: "keys \<noteq> [] \<Longrightarrow> set_walk (Object []) keys v = Inr (nest keys v)"
proof (induction keys)
  case Nil
  then show ?case by simp
next
  case (Cons key keys)
  then show ?case
    by (cases "keys = []") (auto simp: set_walk_Cons store_def split: option.splits)
qed


lemma get_walk_Undefined [simp]: "get_walk Undefined keys = Undefined"
  by (cases keys) simp_all

lemma get_walk_append: "get_walk c (pre @ rest) = get_walk (get_walk c pre) rest"
  by (induction pre arbitrary: c) simp_all

lemma walks_append: "walks c (pre @ rest) = (walks c pre \<and> walks (get_walk c pre) rest)"
  by (induction pre arbitrary: c) auto

lemma set_walk_descends:
  "walks c pre \<Longrightarrow> is_object (get_walk c pre) \<Longrightarrow> rest \<noteq> [] \<Longrightarrow>
   set_walk c (pre @ rest) x = Inr c' \<Longrightarrow>
   walks c' pre \<and> set_walk (get_walk c pre) rest x = Inr (get_walk c' pre)"
proof (induction pre arbitrary: c c')
  case Nil
  then show ?case by simp
next
  case (Cons key pre)
  let ?child = "get_property c key"
  have c: "is_object c" "has_property c key" "walks ?child pre"
    using Cons.prems(1) by auto
  have o: "is_object ?child"
    using Cons.prems(2) c walks_is_object [of ?child pre] by (cases "pre = []") auto
  have g: "get_walk ?child pre = get_walk c (key # pre)" using c by simp
  from Cons.prems(3,4) c o obtain child' where
    s: "set_walk ?child (pre @ rest) x = Inr child'" and p: "put_property c key child' = Inr c'"
    by (auto simp: set_walk_Cons typeof_object split: sum.splits)
  have "walks child' pre \<and> set_walk (get_walk ?child pre) rest x = Inr (get_walk child' pre)"
    using Cons.IH [OF c(3) _ Cons.prems(3) s] Cons.prems(2) g by simp
  then show ?case using put_property_Inr [OF p] g by auto
qed

lemma set_walk_missing:
  assumes "is_object node"
    and "\<not> has_property node key \<or> typeof (get_property node key) \<noteq> ''object''"
  shows "set_walk node (key # rest) v = put_property node key (nest rest v)"
proof (cases "rest = []")
  case True
  then show ?thesis by simp
next
  case False
  then show ?thesis using assms by (auto simp: set_walk_Cons set_walk_fresh)
qed

lemma set_walk_assigns:
  assumes "set_walk node (key # rest) V = Inr node'"
  shows "is_object node' \<and> has_property node' key \<and>
         put_property node key (get_property node' key) = Inr node'"
proof (cases "rest = []")
  case True
  with assms have p: "put_property node key V = Inr node'" by simp
  from put_property_Inr [OF p] p show ?thesis by simp
next
  case False
  with assms obtain child' where p: "put_property node key child' = Inr node'"
    by (auto simp: set_walk_Cons Let_def split: if_splits sum.splits)
  from put_property_Inr [OF p] p show ?thesis by simp
qed

subsection \<open>Claim C3: what assign creates\<close>

text \<open>
  Claim C3 says that \<^verbatim>\<open>setValue\<close> replaces every intermediate that is missing or not a
  Mapping by a fresh empty Mapping and never fails, whatever the intermediates are,
  \<^verbatim>\<open>null\<close> included. The code replaces an intermediate only when it is missing or
  \<^verbatim>\<open>typeof\<close> does not call it an object: an array is walked into, and \<^verbatim>\<open>null\<close> is stepped
  onto, where the next step raises a TypeError.

  Claim C3 as amended: on an array or object \<open>T\<close> and a dot path \<open>P\<close> whose walk does
  not step onto \<^verbatim>\<open>null\<close>, \<^verbatim>\<open>setValue\<close> returns a tree in which \<open>P\<close> resolves to \<open>V\<close>.
  Every array or object of \<open>T\<close> that the segments lead through is walked into, not
  overwritten: in the tree returned it is the same node with one assignment made, to the
  property that the next segment names (\<open>put_property\<close> is that assignment). And where
  the walk finds the next segment missing or holding a value that is not an object, what
  is assigned is the chain of fresh one-key objects that leads to \<open>V\<close>.
  The witness is the two scenarios of the specification, \<^verbatim>\<open>assign({}, "a.b.c", 5)\<close> and
  \<^verbatim>\<open>assign({"a": {"b": [1,2,3]}}, "a.c", "x")\<close>.
\<close>

theorem setValue_creates_intermediates:
  assumes "is_object T" and "\<not> startsWith_dollar P" and "plain_path P"
    and "\<not> meets_null T (split_dot P)"
  shows "\<exists>T'. setValue T P V = Inr T' \<and>
           walks T' (split_dot P) \<and> get_walk T' (split_dot P) = V \<and>
           (\<forall>pre key rest.
              split_dot P = pre @ key # rest \<and> walks T pre \<and> is_object (get_walk T pre)
              \<longrightarrow> walks T' (pre @ [key]) \<and>
                  put_property (get_walk T pre) key (get_walk T' (pre @ [key]))
                    = Inr (get_walk T' pre) \<and>
                  (\<not> has_property (get_walk T pre) key \<or>
                   typeof (get_property (get_walk T pre) key) \<noteq> ''object''
                   \<longrightarrow> get_walk T' (pre @ [key]) = nest rest V))"
proof -
  obtain T' where s: "set_walk T (split_dot P) V = Inr T'"
    using set_walk_total [OF assms(1,4)] by blast
  have r: "walks T' (split_dot P) \<and> get_walk T' (split_dot P) = V"
    using set_walk_reads_back [OF s] by simp
  have "walks T' (pre @ [key]) \<and>
        put_property (get_walk T pre) key (get_walk T' (pre @ [key])) = Inr (get_walk T' pre) \<and>
        (\<not> has_property (get_walk T pre) key \<or>
         typeof (get_property (get_walk T pre) key) \<noteq> ''object''
         \<longrightarrow> get_walk T' (pre @ [key]) = nest rest V)"
    if h: "split_dot P = pre @ key # rest" "walks T pre" "is_object (get_walk T pre)"
    for pre key rest
  proof -
    have d: "walks T' pre" "set_walk (get_walk T pre) (key # rest) V = Inr (get_walk T' pre)"
      using set_walk_descends [OF h(2,3), of "key # rest" V T'] s h(1) by simp_all
    from set_walk_assigns [OF d(2)]
    have a: "is_object (get_walk T' pre)" "has_property (get_walk T' pre) key"
      "put_property (get_walk T pre) key (get_property (get_walk T' pre) key)
         = Inr (get_walk T' pre)"
      by simp_all
    have g: "get_walk T' (pre @ [key]) = get_property (get_walk T' pre) key"
      using a(1,2) by (simp add: get_walk_append)
    have w: "walks T' (pre @ [key])" using d(1) a(1,2) by (simp add: walks_append)
    have "get_walk T' (pre @ [key]) = nest rest V"
      if m: "\<not> has_property (get_walk T pre) key \<or>
             typeof (get_property (get_walk T pre) key) \<noteq> ''object''"
    proof -
      have "put_property (get_walk T pre) key (nest rest V) = Inr (get_walk T' pre)"
        using d(2) set_walk_missing [OF h(3) m] by simp
      from put_property_Inr [OF this] g show ?thesis by simp
    qed
    with w a(3) g show ?thesis by simp
  qed
  then show ?thesis using s r assms(2) by (auto simp: setValue_def)
qed

theorem setValue_creates_intermediates_witness:
  "is_object (Object []) \<and> \<not> startsWith_dollar ''a.b.c'' \<and> plain_path ''a.b.c'' \<and>
   \<not> meets_null (Object []) (split_dot ''a.b.c'') \<and>
   setValue (Object []) ''a.b.c'' (Number 5) =
     Inr (Object [(''a'', Object [(''b'', Object [(''c'', Number 5)])])]) \<and>
   is_object (Object [(''a'', Object [(''b'', array_of [Number 1, Number 2, Number 3])])]) \<and>
   \<not> startsWith_dollar ''a.c'' \<and> plain_path ''a.c'' \<and>
   \<not> meets_null (Object [(''a'', Object [(''b'', array_of [Number 1, Number 2, Number 3])])])
       (split_dot ''a.c'') \<and>
   setValue (Object [(''a'', Object [(''b'', array_of [Number 1, Number 2, Number 3])])]) ''a.c''
       (Str ''x'') =
     Inr (Object [(''a'', Object [(''b'', array_of [Number 1, Number 2, Number 3]),
                                  (''c'', Str ''x'')])])"
  using setValue_creates_intermediates [of "Object []" "''a.b.c''" "Number 5"]
    setValue_creates_intermediates
      [of "Object [(''a'', Object [(''b'', array_of [Number 1, Number 2, Number 3])])]"
          "''a.c''" "Str ''x''"]
  by (simp add: eval_simps)

text \<open>Against claim C3 as stated: a \<^verbatim>\<open>null\<close> intermediate makes \<^verbatim>\<open>setValue\<close> fail, and an array
  intermediate is kept, the new key becoming a named property of the array.\<close>

theorem setValue_counterexample:
  "setValue (Object [(''a'', Null)]) ''a.b'' (Number 5) = Inl TypeError \<and>
   setValue (Object [(''a'', array_of [Number 1])]) ''a.b'' (Number 5) =
     Inr (Object [(''a'', Array [Some (Number 1)] [(''b'', Number 5)])])"
  by (simp add: eval_simps)

subsection \<open>Claim C4: removing an absent path\<close>

text \<open>
  Claim C4 says that \<^verbatim>\<open>deleteValue\<close> never fails and is a no-op whenever an intermediate
  segment is missing or not a Mapping, also when the parent of the final segment is
  \<^verbatim>\<open>null\<close>. The code walks into arrays as into objects, and it steps onto \<^verbatim>\<open>null\<close>, where
  \<^verbatim>\<open>delete\<close> or the next \<^verbatim>\<open>in\<close> raises a TypeError.

  Claim C4 as amended: on an array or object \<open>T\<close> and a dot path \<open>P\<close> whose walk does
  not step onto \<^verbatim>\<open>null\<close>, \<^verbatim>\<open>deleteValue\<close> returns a tree in which \<open>P\<close> does not resolve
  (no own property is left under its last segment), and that tree is \<open>T\<close> itself when
  \<open>P\<close> did not resolve in \<open>T\<close>.
\<close>

theorem deleteValue_absent_is_noop:
  assumes "is_object T" and "plain_path P" and "\<not> meets_null T (split_dot P)"
  shows "\<exists>T'. deleteValue T P = Inr T' \<and> \<not> walks T' (split_dot P) \<and>
           (\<not> walks T (split_dot P) \<longrightarrow> T' = T)"
proof -
  obtain T' where d: "delete_walk T (split_dot P) = Inr T'"
    using delete_walk_total [OF assms(1,3)] by blast
  have "\<not> walks T' (split_dot P)" using delete_walk_removes [OF d] by simp
  moreover have "T' = T" if "\<not> walks T (split_dot P)"
    using delete_walk_absent [OF assms(1,3) _ that] d by simp
  ultimately show ?thesis using d by (auto simp: deleteValue_def)
qed

theorem deleteValue_absent_is_noop_witness:
  "is_object (Object [(''a'', Number 1)]) \<and> plain_path ''a.b'' \<and>
   \<not> meets_null (Object [(''a'', Number 1)]) (split_dot ''a.b'') \<and>
   \<not> walks (Object [(''a'', Number 1)]) (split_dot ''a.b'') \<and>
   deleteValue (Object [(''a'', Number 1)]) ''a.b'' = Inr (Object [(''a'', Number 1)])"
  using deleteValue_absent_is_noop [of "Object [(''a'', Number 1)]" "''a.b''"]
  by (auto simp: eval_simps)

text \<open>Against claim C4 as stated: a \<^verbatim>\<open>null\<close> parent makes \<^verbatim>\<open>deleteValue\<close> fail, and below an
  array, which is not a Mapping, the call is not a no-op.\<close>

theorem deleteValue_counterexample:
  "deleteValue (Object [(''a'', Null)]) ''a.b'' = Inl TypeError \<and>
   deleteValue (Object [(''a'', array_of [Number 1, Number 2, Number 3])]) ''a.0'' =
     Inr (Object [(''a'', Array [None, Some (Number 2), Some (Number 3)] [])])"
  by (simp add: eval_simps)

subsection \<open>Claim C5: write, then read\<close>

text \<open>
  Claim C5 says that \<^verbatim>\<open>setValue\<close> completes on every tree and path and that \<^verbatim>\<open>getValue\<close>
  then returns the value written. \<^verbatim>\<open>JSONHandler.setValue\<close> refuses a path that starts with
  \<^verbatim>\<open>$\<close>, and it raises a TypeError on a tree that is not an array or object and on a
  \<^verbatim>\<open>null\<close> intermediate.

  Claim C5 as amended: \<^verbatim>\<open>setValue\<close> completes on an array or object \<open>T\<close> and a dot path
  \<open>P\<close> whose walk does not step onto \<^verbatim>\<open>null\<close>; and whenever \<^verbatim>\<open>setValue T P V\<close> completes,
  \<^verbatim>\<open>getValue\<close> of the same path in the tree returned is \<open>V\<close>.
\<close>

theorem getValue_after_setValue:
  assumes "plain_path P"
  shows "(is_object T \<and> \<not> startsWith_dollar P \<and> \<not> meets_null T (split_dot P)
            \<longrightarrow> (\<exists>T'. setValue T P V = Inr T')) \<and>
         (\<forall>T'. setValue T P V = Inr T' \<longrightarrow> getValue JSONPath T' P = Inr V)"
proof (intro conjI impI allI)
  assume "is_object T \<and> \<not> startsWith_dollar P \<and> \<not> meets_null T (split_dot P)"
  then show "\<exists>T'. setValue T P V = Inr T'"
    using set_walk_total [of T "split_dot P" V] by (simp add: setValue_def)
next
  fix T'
  assume s: "setValue T P V = Inr T'"
  then have d: "\<not> startsWith_dollar P" by (auto simp: setValue_def split: if_splits)
  with s have "set_walk T (split_dot P) V = Inr T'" by (simp add: setValue_def)
  from set_walk_reads_back [OF this] d show "getValue JSONPath T' P = Inr V"
    by (simp add: getValue_def)
qed

theorem getValue_after_setValue_witness:
  "plain_path ''a.c'' \<and> is_object (Object [(''a'', Object [(''b'', Number 1)])]) \<and>
   \<not> startsWith_dollar ''a.c'' \<and>
   \<not> meets_null (Object [(''a'', Object [(''b'', Number 1)])]) (split_dot ''a.c'') \<and>
   setValue (Object [(''a'', Object [(''b'', Number 1)])]) ''a.c'' (Str ''x'') =
     Inr (Object [(''a'', Object [(''b'', Number 1), (''c'', Str ''x'')])]) \<and>
   getValue (\<lambda>p v. None) (Object [(''a'', Object [(''b'', Number 1), (''c'', Str ''x'')])]) ''a.c''
     = Inr (Str ''x'')"
  using getValue_after_setValue [of "''a.c''" "Object [(''a'', Object [(''b'', Number 1)])]"
      "Str ''x''" "\<lambda>p v. None"]
  by (auto simp: eval_simps)

text \<open>Against claim C5 as stated: three calls of \<^verbatim>\<open>setValue\<close> that do not complete.\<close>

theorem getValue_after_setValue_counterexample:
  "setValue (Object []) ''$.a'' (Number 1) = Inl DotNotationRequired \<and>
   setValue (Object [(''x'', Null)]) ''x.y'' (Bool True) = Inl TypeError \<and>
   setValue (Number 5) ''a'' (Number 1) = Inl TypeError"
  by (simp add: eval_simps)


lemma size_lookup:
  "map_of kvs k = Some v \<Longrightarrow> size v < Suc (size_list (size_prod (\<lambda>_. 0) size) kvs)"
  by (induction kvs) (auto split: if_splits)

lemma size_slot:
  "i < length es \<Longrightarrow> es ! i = Some v \<Longrightarrow> size v < Suc (size_list (size_option size) es)"
proof (induction es arbitrary: i)
  case Nil
  then show ?case by simp
next
  case (Cons e es)
  show ?case
  proof (cases i)
    case 0
    with Cons.prems show ?thesis by simp
  next
    case (Suc j)
    with Cons.prems Cons.IH [of j] show ?thesis by simp
  qed
qed

lemma size_get_property: "has_property c k \<Longrightarrow> size (get_property c k) < size c"
proof (cases c)
  case (Array es xs)
  assume "has_property c k"
  with Array show ?thesis
    using size_lookup [of xs k] size_slot [of _ es]
    by (fastforce simp: lookup_def split: option.splits)
next
  case (Object kvs)
  assume "has_property c k"
  with Object show ?thesis
    using size_lookup [of kvs k] by (fastforce simp: lookup_def split: option.splits)
qed simp_all

subsection \<open>Claim C6: the empty path\<close>

text \<open>
  Claim C6 says that \<^verbatim>\<open>getValue\<close> with the empty path returns the whole tree. The empty
  string splits into one empty segment, which \<^verbatim>\<open>getValue\<close> looks up as a key.

  Claim C6 as amended: \<^verbatim>\<open>getValue(T, "")\<close> is the value of the property of \<open>T\<close> whose name
  is the empty string, when \<open>T\<close> is an array or object that has one, and \<^verbatim>\<open>undefined\<close>
  otherwise; it is \<open>T\<close> only when \<open>T\<close> is \<^verbatim>\<open>undefined\<close>.
\<close>

theorem getValue_empty_path:
  "getValue JSONPath T [] =
     Inr (if is_object T \<and> has_property T [] then get_property T [] else Undefined) \<and>
   (getValue JSONPath T [] = Inr T \<longleftrightarrow> T = Undefined)"
proof -
  have "get_property T [] \<noteq> T" if "has_property T []"
    using size_get_property [OF that] by auto
  then show ?thesis by (auto simp: getValue_def)
qed

theorem getValue_empty_path_witness:
  "getValue (\<lambda>p v. None) (Object [([], Number 7), (''a'', Number 1)]) [] = Inr (Number 7) \<and>
   getValue (\<lambda>p v. None) (Object [(''a'', Number 1)]) [] \<noteq> Inr (Object [(''a'', Number 1)])"
  using getValue_empty_path [of "\<lambda>p v. None" "Object [([], Number 7), (''a'', Number 1)]"]
    getValue_empty_path [of "\<lambda>p v. None" "Object [(''a'', Number 1)]"]
  by (simp add: lookup_def)

text \<open>Against claim C6 as stated: the empty path does not resolve to the tree.\<close>

theorem getValue_empty_path_counterexample:
  "getValue (\<lambda>p v. None) (Object [(''a'', Number 1)]) [] = Inr Undefined"
  by (simp add: eval_simps)

subsection \<open>Claim C7: index segments on arrays\<close>

text \<open>
  Claim C7 says that \<^verbatim>\<open>setValue\<close> and \<^verbatim>\<open>deleteValue\<close> leave the elements of a Sequence alone
  when a numeric segment addresses one. An array is an object whose slots are the
  properties named by the indices, so both reach the slot.

  Claim C7 as amended: when all but the last segment of a dot path resolve to an array
  and the last segment is the decimal form of an index \<open>i\<close> below its length,
  \<^verbatim>\<open>setValue\<close> stores \<open>V\<close> in slot \<open>i\<close>, and \<^verbatim>\<open>deleteValue\<close> empties slot \<open>i\<close>, leaving a
  hole and the length as it was; the other slots stay as they were. \<^verbatim>\<open>getValue\<close> reads
  slot \<open>i\<close> through the same path: the three agree on index segments.
\<close>

theorem index_segment_reaches_slot:
  assumes "plain_path P" and "\<not> startsWith_dollar P"
    and "split_dot P = pre @ [show_nat i]"
    and "walks T pre" and "get_walk T pre = Array es xs" and "i < length es"
    and "i < 4294967295"
  shows "(\<exists>T'. setValue T P V = Inr T' \<and> walks T' pre \<and>
               get_walk T' pre = Array (es[i := Some V]) xs) \<and>
         (\<exists>T'. deleteValue T P = Inr T' \<and> walks T' pre \<and>
               get_walk T' pre = Array (es[i := None]) xs) \<and>
         getValue JSONPath T P = Inr (slot_value (es ! i))"
proof -
  have k: "array_index (show_nat i) = Some i" using assms(7) by (rule array_index_show_nat)
  have g: "getValue JSONPath T P = Inr (slot_value (es ! i))"
    using assms(2,3,5,6) k
    by (cases "es ! i") (simp_all add: getValue_def get_walk_append)
  have o: "is_object (get_walk T pre)" using assms(5) by simp
  have "set_walk (get_walk T pre) [show_nat i] V = Inr (Array (es[i := Some V]) xs)"
    using assms(5,6) k by simp
  from set_walk_at [OF assms(4) o _ this]
  have s: "\<exists>T'. setValue T P V = Inr T' \<and> walks T' pre \<and>
               get_walk T' pre = Array (es[i := Some V]) xs"
    using assms(2,3) by (simp add: setValue_def)
  have "delete_walk (get_walk T pre) [show_nat i] = Inr (Array (es[i := None]) xs)"
    using assms(5,6) k by simp
  from delete_walk_at [OF assms(4) o _ this]
  have "\<exists>T'. deleteValue T P = Inr T' \<and> walks T' pre \<and>
               get_walk T' pre = Array (es[i := None]) xs"
    using assms(3) by (simp add: deleteValue_def)
  with s g show ?thesis by blast
qed

theorem index_segment_reaches_slot_witness:
  "plain_path ''tags.0'' \<and> \<not> startsWith_dollar ''tags.0'' \<and>
   split_dot ''tags.0'' = [''tags''] @ [show_nat 0] \<and>
   walks (Object [(''tags'', array_of [Str ''red'', Str ''blue''])]) [''tags''] \<and>
   get_walk (Object [(''tags'', array_of [Str ''red'', Str ''blue''])]) [''tags'']
     = Array [Some (Str ''red''), Some (Str ''blue'')] [] \<and>
   (0::nat) < length [Some (Str ''red''), Some (Str ''blue'')] \<and> (0::nat) < 4294967295 \<and>
   (\<exists>T'. setValue (Object [(''tags'', array_of [Str ''red'', Str ''blue''])]) ''tags.0''
            (Str ''green'') = Inr T' \<and>
         get_walk T' [''tags''] = Array [Some (Str ''green''), Some (Str ''blue'')] []) \<and>
   (\<exists>T'. deleteValue (Object [(''tags'', array_of [Str ''red'', Str ''blue''])]) ''tags.0''
            = Inr T' \<and>
         get_walk T' [''tags''] = Array [None, Some (Str ''blue'')] []) \<and>
   getValue (\<lambda>p v. None) (Object [(''tags'', array_of [Str ''red'', Str ''blue''])]) ''tags.0''
     = Inr (Str ''red'')"
proof -
  have h: "plain_path ''tags.0''" "\<not> startsWith_dollar ''tags.0''"
    "split_dot ''tags.0'' = [''tags''] @ [show_nat 0]"
    "walks (Object [(''tags'', array_of [Str ''red'', Str ''blue''])]) [''tags'']"
    "get_walk (Object [(''tags'', array_of [Str ''red'', Str ''blue''])]) [''tags'']
       = Array [Some (Str ''red''), Some (Str ''blue'')] []"
    "(0::nat) < length [Some (Str ''red''), Some (Str ''blue'')]" "(0::nat) < 4294967295"
    by (simp_all add: eval_simps)
  have c:
    "(\<exists>T'. setValue (Object [(''tags'', array_of [Str ''red'', Str ''blue''])]) ''tags.0''
            (Str ''green'') = Inr T' \<and>
         get_walk T' [''tags''] = Array [Some (Str ''green''), Some (Str ''blue'')] []) \<and>
     (\<exists>T'. deleteValue (Object [(''tags'', array_of [Str ''red'', Str ''blue''])]) ''tags.0''
            = Inr T' \<and>
         get_walk T' [''tags''] = Array [None, Some (Str ''blue'')] []) \<and>
     getValue (\<lambda>p v. None) (Object [(''tags'', array_of [Str ''red'', Str ''blue''])]) ''tags.0''
       = Inr (Str ''red'')"
    using index_segment_reaches_slot
      [OF h, where V = "Str ''green''" and JSONPath = "\<lambda>p v. None"]
    by auto
  from h c show ?thesis by blast
qed

text \<open>Against claim C7 as stated: both calls change the element at index 1.\<close>

theorem index_segment_counterexample:
  "setValue (Object [(''items'', array_of [Number 1, Number 2, Number 3])]) ''items.1'' (Number 9)
     = Inr (Object [(''items'', array_of [Number 1, Number 9, Number 3])]) \<and>
   deleteValue (Object [(''items'', array_of [Number 1, Number 2, Number 3])]) ''items.1'' =
     Inr (Object [(''items'', Array [Some (Number 1), None, Some (Number 3)] [])])"
  by (simp add: eval_simps)

section \<open>Properties of the walks\<close>

subsection \<open>Claim C9: getAllKeys caps arrays, not objects\<close>





subsection \<open>Claim C1: the cap on the number of results\<close>

text \<open>
  Claim C1 says that \<^verbatim>\<open>searchKeyword\<close> returns at most \<^verbatim>\<open>maxResults\<close> matches. The number of
  results is compared with the bound only when \<^verbatim>\<open>search\<close> is entered, not in the loop
  over the keys of an object: with the bound 1, an object with two keys that match gives
  two matches.
\<close>

theorem searchKeyword_exceeds_maxResults:
  "searchKeyword (\<lambda>k i. None) (Object [(''a1'', Number 1), (''a2'', Number 2)]) ''a''
     (default_options\<lparr>maxResults := 1\<rparr>) =
   Inr [\<lparr>mtype = KeyMatch, mpath = ''a1'', mkey = ''a1'', mvalue = Str ''1''\<rparr>,
        \<lparr>mtype = KeyMatch, mpath = ''a2'', mkey = ''a2'', mvalue = Str ''2''\<rparr>]"
  by code_simp

subsection \<open>Claim C10: a pattern that remembers\<close>

text \<open>
  Claim C10 says that in regex mode a text matches or not whatever was tested before it.
  The pattern is compiled with the flag \<^verbatim>\<open>g\<close>, so \<^verbatim>\<open>test\<close> starts at \<^verbatim>\<open>lastIndex\<close>, which the
  test before it has set. Of two values \<^verbatim>\<open>"a"\<close> searched for \<^verbatim>\<open>a\<close> only the first is matched;
  and of a key \<^verbatim>\<open>a\<close> with the value \<^verbatim>\<open>"a"\<close> only the key is.
\<close>

theorem regex_test_depends_on_earlier_tests:
  "searchKeyword literal_RegExp (Object [(''x'', Str ''a''), (''y'', Str ''a'')]) ''a''
     (default_options\<lparr>regex := True, searchKeys := False\<rparr>) =
   Inr [\<lparr>mtype = ValueMatch, mpath = ''x'', mkey = ''x'', mvalue = Str ''a''\<rparr>] \<and>
   searchKeyword literal_RegExp (Object [(''a'', Str ''a'')]) ''a''
     (default_options\<lparr>regex := True\<rparr>) =
   Inr [\<lparr>mtype = KeyMatch, mpath = ''a'', mkey = ''a'', mvalue = Str ''a''\<rparr>]"
  by code_simp

subsection \<open>Claim C8: getStructure stops at the depth bound\<close>










subsection \<open>Claim C2: which values the search tests\<close>

lemma search_not_object: "\<not> is_object v \<Longrightarrow> search value_text opts pat v path st = Inr st"
  by (cases v) simp_all

lemma fold_err_unchanged: "(\<And>x s. x \<in> set xs \<Longrightarrow> f x s = Inr s) \<Longrightarrow> fold_err f xs st = Inr st"
  by (induction xs arbitrary: st) simp_all

lemma fold_err_append:
  "fold_err f (xs @ ys) s = (case fold_err f xs s of Inl e \<Rightarrow> Inl e | Inr s' \<Rightarrow> fold_err f ys s')"
  by (induction xs arbitrary: s) (auto split: sum.splits)

lemma fold_err_relates:
  assumes "fold_err f xs s = Inr s'"
    and "\<And>x a b. x \<in> set xs \<Longrightarrow> f x a = Inr b \<Longrightarrow> R a b"
    and "\<And>a. R a a" and "\<And>a b c. R a b \<Longrightarrow> R b c \<Longrightarrow> R a c"
  shows "R s s'"
  using assms(1,2)
proof (induction xs arbitrary: s)
  case Nil
  then show ?case using assms(3) by simp
next
  case (Cons x xs)
  from Cons.prems(1) obtain m where m: "f x s = Inr m" and r: "fold_err f xs m = Inr s'"
    by (auto split: sum.splits)
  have "R s m" using Cons.prems(2) [of x s m] m by simp
  moreover have "R m s'" by (rule Cons.IH [OF r]) (use Cons.prems(2) in auto)
  ultimately show ?case using assms(4) by blast
qed

lemma sound_match_iff:
  "sound_match value_text opts kw m \<longleftrightarrow>
     mtype m = KeyMatch \<or>
     (searchValues opts \<and>
      (\<exists>text. value_text (mvalue m) = Inr (Some text) \<and> contains_keyword opts text kw))"
  by (auto simp: sound_match_def split: sum.splits option.splits)

lemma grows_iff:
  "grows value_text opts kw st st' \<longleftrightarrow>
     (\<exists>new. results st' = results st @ new \<and> list_all (sound_match value_text opts kw) new)"
proof
  assume "grows value_text opts kw st st'"
  then have "results st' = results st @ drop (length (results st)) (results st')"
    and "list_all (sound_match value_text opts kw) (drop (length (results st)) (results st'))"
    unfolding grows_def by (metis append_take_drop_id, simp)
  then show "\<exists>new. results st' = results st @ new \<and>
      list_all (sound_match value_text opts kw) new"
    by blast
next
  assume "\<exists>new. results st' = results st @ new \<and>
      list_all (sound_match value_text opts kw) new"
  then show "grows value_text opts kw st st'" by (auto simp: grows_def)
qed

lemma fold_err_total:
  "(\<And>x s. x \<in> set xs \<Longrightarrow> \<exists>s'. f x s = Inr s') \<Longrightarrow> \<exists>s'. fold_err f xs s = Inr s'"
proof (induction xs arbitrary: s)
  case Nil
  then show ?case by simp
next
  case (Cons x xs)
  from Cons.prems [of x s] obtain s1 where s1: "f x s = Inr s1" by auto
  from Cons.IH [of s1] Cons.prems obtain s' where "fold_err f xs s1 = Inr s'" by auto
  with s1 show ?case by simp
qed

lemma match_entry_total:
  "\<not> isl (value_text v) \<Longrightarrow>
   \<exists>st'. match_entry value_text opts pat fullPath key v st = Inr st'"
  by (cases "value_text v")
    (auto simp: match_entry_def Let_def split: prod.splits option.splits)

lemma search_total:
  "texts_defined value_text T \<Longrightarrow> \<exists>st'. search value_text opts pat T path st = Inr st'"
proof (induction value_text opts pat T path st rule: search.induct)
  case (1 value_text opts pat es xs path st)
  show ?case
  proof (cases "length (results st) \<ge> maxResults opts")
    case True
    then show ?thesis by simp
  next
    case False
    have "\<exists>s'. search value_text opts pat (slot_value (es ! i)) (item_path path i) s = Inr s'"
      if "i \<in> set [0 ..< length es]" for i s
      using 1(1) [OF False that] 1(2) that by (simp add: list_all_length)
    then have "\<exists>s'. fold_err (\<lambda>i. search value_text opts pat (slot_value (es ! i)) (item_path path i))
          [0 ..< length es] st = Inr s'"
      by (rule fold_err_total)
    with False show ?thesis by simp
  qed
next
  case (2 value_text opts pat kvs path st)
  show ?case
  proof (cases "length (results st) \<ge> maxResults opts")
    case True
    then show ?thesis by simp
  next
    case False
    define step where "step = (\<lambda>entry st.
            let fullPath = key_path path (fst entry) in
            case match_entry value_text opts pat fullPath (fst entry) (snd entry) st of
              Inl e \<Rightarrow> Inl e
            | Inr st2 \<Rightarrow>
                (if is_object (snd entry)
                 then search value_text opts pat (snd entry) fullPath st2
                 else Inr st2))"
    have "\<exists>s'. step entry s = Inr s'" if m: "entry \<in> set kvs" for entry s
    proof -
      from 2(2) m have ok: "\<not> isl (value_text (snd entry))"
        and td: "texts_defined value_text (snd entry)"
        by (auto simp: list_all_iff)
      from match_entry_total [of value_text "snd entry", OF ok] obtain st2 where
        st2: "match_entry value_text opts pat (key_path path (fst entry)) (fst entry) (snd entry) s
              = Inr st2"
        by blast
      show ?thesis
      proof (cases "is_object (snd entry)")
        case True
        from 2(1) [OF False m refl st2 True td] st2 True show ?thesis
          by (simp add: step_def)
      next
        case False
        with st2 show ?thesis by (simp add: step_def)
      qed
    qed
    then have "\<exists>s'. fold_err step kvs st = Inr s'" by (rule fold_err_total)
    with False show ?thesis by (simp add: step_def)
  qed
qed simp_all

lemma json_value_text_defined: "\<not> isl (json_value_text v)"
  by (cases v) simp_all

lemma texts_defined_json: "texts_defined json_value_text T"
proof (induction json_value_text T rule: texts_defined.induct)
  case (1 es xs)
  then show ?case by (simp add: list_all_iff)
next
  case (2 kvs)
  then show ?case by (simp add: list_all_iff json_value_text_defined)
qed simp_all

lemma grows_refl: "grows value_text opts kw st st"
  by (simp add: grows_iff)

lemma grows_trans:
  "grows value_text opts kw a b \<Longrightarrow> grows value_text opts kw b c \<Longrightarrow> grows value_text opts kw a c"
  by (auto simp: grows_iff)

lemma match_entry_Keyword:
  assumes "match_entry value_text opts (Keyword kw) fullPath key v st = Inr st'"
  shows "results st' = results st
     @ (if searchKeys opts \<and> contains_keyword opts key kw
        then [\<lparr>mtype = KeyMatch, mpath = fullPath, mkey = key, mvalue = Str (getPreview v)\<rparr>]
        else [])
     @ (if searchValues opts \<and>
           (\<exists>text. value_text v = Inr (Some text) \<and> contains_keyword opts text kw)
        then [\<lparr>mtype = ValueMatch, mpath = fullPath, mkey = key, mvalue = v\<rparr>]
        else [])"
  using assms
  by (auto simp: match_entry_def push_def Let_def split: if_splits sum.splits option.splits)

lemma match_entry_grows:
  assumes "match_entry value_text opts (Keyword kw) fullPath key v st = Inr st'"
  shows "grows value_text opts kw st st'"
  unfolding grows_iff using match_entry_Keyword [OF assms]
  by (auto simp: sound_match_iff)

lemma search_grows:
  "search value_text opts (Keyword kw) v path st = Inr st' \<Longrightarrow> grows value_text opts kw st st'"
proof (induction value_text opts "Keyword kw" v path st arbitrary: st' rule: search.induct)
  case (1 value_text opts es xs path st)
  show ?case
  proof (cases "length (results st) \<ge> maxResults opts")
    case True
    with "1.prems" show ?thesis by (simp add: grows_refl)
  next
    case False
    with "1.prems" have f: "fold_err
        (\<lambda>i st. search value_text opts (Keyword kw) (slot_value (es ! i)) (item_path path i) st)
        [0 ..< length es] st = Inr st'"
      by simp
    show ?thesis
      by (rule fold_err_relates [OF f, where R = "grows value_text opts kw"])
         (use "1.hyps" False in \<open>auto intro: grows_refl grows_trans\<close>)
  qed
next
  case (2 value_text opts kvs path st)
  show ?case
  proof (cases "length (results st) \<ge> maxResults opts")
    case True
    with "2.prems" show ?thesis by (simp add: grows_refl)
  next
    case False
    define step where "step = (\<lambda>entry st.
            let fullPath = key_path path (fst entry) in
            case match_entry value_text opts (Keyword kw) fullPath (fst entry) (snd entry) st of
              Inl e \<Rightarrow> Inl e
            | Inr st2 \<Rightarrow>
                (if is_object (snd entry)
                 then search value_text opts (Keyword kw) (snd entry) fullPath st2
                 else Inr st2))"
    from False "2.prems" have f: "fold_err step kvs st = Inr st'"
      by (simp add: step_def)
    have "grows value_text opts kw a b" if "entry \<in> set kvs" and "step entry a = Inr b"
      for entry a b
    proof -
      from that(2) obtain m where
        m: "match_entry value_text opts (Keyword kw) (key_path path (fst entry)) (fst entry)
              (snd entry) a = Inr m"
        and r: "(if is_object (snd entry)
                 then search value_text opts (Keyword kw) (snd entry) (key_path path (fst entry)) m
                 else Inr m) = Inr b"
        by (auto simp: step_def Let_def split: sum.splits)
      have "grows value_text opts kw m b"
      proof (cases "is_object (snd entry)")
        case True
        with r "2.hyps" [OF False that(1) refl m True] show ?thesis by simp
      next
        case False
        with r show ?thesis by (simp add: grows_refl)
      qed
      with match_entry_grows [OF m] show ?thesis by (rule grows_trans)
    qed
    then show ?thesis
      by (intro fold_err_relates [OF f, where R = "grows value_text opts kw"])
         (auto intro: grows_refl grows_trans)
  qed
qed (simp_all add: grows_refl)


lemma grows_keeps: "grows value_text opts kw st st' \<Longrightarrow> m \<in> set (results st) \<Longrightarrow> m \<in> set (results st')"
  by (auto simp: grows_iff)

lemma search_Object_entry:
  assumes s: "search value_text opts (Keyword kw) (Object kvs) path st = Inr st'"
    and cap: "length (results st) < maxResults opts"
    and e: "(k, v) \<in> set kvs"
    and hit: "searchValues opts" "value_text v = Inr (Some text)" "contains_keyword opts text kw"
  shows "\<lparr>mtype = ValueMatch, mpath = key_path path k, mkey = k, mvalue = v\<rparr> \<in> set (results st')"
proof -
  define step where "step = (\<lambda>entry st.
            let fullPath = key_path path (fst entry) in
            case match_entry value_text opts (Keyword kw) fullPath (fst entry) (snd entry) st of
              Inl e \<Rightarrow> Inl e
            | Inr st2 \<Rightarrow>
                (if is_object (snd entry)
                 then search value_text opts (Keyword kw) (snd entry) fullPath st2
                 else Inr st2))"
  let ?m = "\<lparr>mtype = ValueMatch, mpath = key_path path k, mkey = k, mvalue = v\<rparr>"
  have step_grows: "grows value_text opts kw a b" if "step entry a = Inr b" for entry a b
  proof -
    from that obtain m where
      m: "match_entry value_text opts (Keyword kw) (key_path path (fst entry)) (fst entry)
            (snd entry) a = Inr m"
      and r: "(if is_object (snd entry)
               then search value_text opts (Keyword kw) (snd entry) (key_path path (fst entry)) m
               else Inr m) = Inr b"
      by (auto simp: step_def Let_def split: sum.splits)
    from r have "grows value_text opts kw m b"
      by (auto simp: grows_refl search_grows split: if_splits)
    with match_entry_grows [OF m] show ?thesis by (rule grows_trans)
  qed
  from cap s have f: "fold_err step kvs st = Inr st'" by (simp add: step_def)
  from e obtain before after where kvs: "kvs = before @ (k, v) # after"
    by (auto dest: split_list)
  from f obtain s1 s2 where
    s1: "fold_err step before st = Inr s1" and s2: "step (k, v) s1 = Inr s2"
    and s3: "fold_err step after s2 = Inr st'"
    unfolding kvs by (auto simp: fold_err_append split: sum.splits)
  from s2 obtain m where
    m: "match_entry value_text opts (Keyword kw) (key_path path k) k v s1 = Inr m"
    and r: "(if is_object v then search value_text opts (Keyword kw) v (key_path path k) m
             else Inr m) = Inr s2"
    by (auto simp: step_def Let_def split: sum.splits cong: if_cong)
  have "?m \<in> set (results m)" using match_entry_Keyword [OF m] hit by auto
  moreover from r have "grows value_text opts kw m s2"
    by (auto simp: grows_refl search_grows split: if_splits)
  moreover have "grows value_text opts kw s2 st'"
    by (rule fold_err_relates [OF s3]) (auto intro: step_grows grows_refl grows_trans)
  ultimately show ?thesis by (blast intro: grows_keeps)
qed

lemma search_new_value_match:
  assumes "search value_text opts (Keyword kw) v path st = Inr st'"
    and "m \<in> set (results st')" and "m \<notin> set (results st)" and "mtype m = ValueMatch"
  shows "searchValues opts \<and>
         (\<exists>text. value_text (mvalue m) = Inr (Some text) \<and> contains_keyword opts text kw)"
proof -
  from search_grows [OF assms(1)] obtain new where
    "results st' = results st @ new" "list_all (sound_match value_text opts kw) new"
    by (auto simp: grows_iff)
  with assms(2,3) have "sound_match value_text opts kw m" by (auto simp: list_all_iff)
  with assms(4) show ?thesis by (simp add: sound_match_iff)
qed

text \<open>
  Claim C2 says that the search, with \<^verbatim>\<open>searchValues\<close> on, emits a value Match for every
  value whose text matches, the elements of a Sequence included, and that the scenario
  returns one Match, of path \<^verbatim>\<open>tags[0]\<close> and value \<^verbatim>\<open>"red"\<close>. The code tests a value only in the
  loop over the keys of an object; an element of an array is handed to \<^verbatim>\<open>search\<close>, which
  returns at once unless the element is an array or object.

  Claim C2 as amended. An array whose elements are all scalars or holes adds no Match and
  leaves the state as it was. With a keyword as pattern, the search of an object that is
  entered with fewer results than \<^verbatim>\<open>maxResults\<close> emits the value Match of an entry, with
  the path and the key of the entry and its value, exactly when \<^verbatim>\<open>searchValues\<close> is on and
  the text the handler takes of the value contains the keyword. For the document itself,
  an object searched with \<^verbatim>\<open>maxResults\<close> above zero: \<^verbatim>\<open>JSONHandler.searchKeyword\<close> returns, and
  its result holds the value Match of an entry exactly when the value is a string that
  contains the keyword; \<^verbatim>\<open>YAMLHandler.searchKeyword\<close> returns when \<^verbatim>\<open>String(value)\<close> raises on
  no value of an entry in the document, and whenever it returns its result holds the value
  Match of an entry exactly when \<^verbatim>\<open>String(value)\<close> contains the keyword.
\<close>

theorem search_tests_entry_values_only:
  "(list_all (\<lambda>e. \<not> is_object (slot_value e)) es \<longrightarrow>
      search value_text opts pat (Array es xs) path st = Inr st) \<and>
   (search value_text opts (Keyword kw) (Object kvs) path st = Inr st' \<and>
    length (results st) < maxResults opts \<and> (k, v) \<in> set kvs \<and>
    \<lparr>mtype = ValueMatch, mpath = key_path path k, mkey = k, mvalue = v\<rparr> \<notin> set (results st)
    \<longrightarrow>
      (\<lparr>mtype = ValueMatch, mpath = key_path path k, mkey = k, mvalue = v\<rparr> \<in> set (results st')
       \<longleftrightarrow> searchValues opts \<and>
           (\<exists>text. value_text v = Inr (Some text) \<and> contains_keyword opts text kw))) \<and>
   (\<not> regex opts \<and> 0 < maxResults opts \<and> (k, v) \<in> set kvs
    \<longrightarrow>
      (\<exists>found. searchKeyword RegExp (Object kvs) kw opts = Inr found \<and>
         (\<lparr>mtype = ValueMatch, mpath = k, mkey = k, mvalue = v\<rparr> \<in> set found
          \<longleftrightarrow> searchValues opts \<and> (\<exists>text. v = Str text \<and> contains_keyword opts text kw)))) \<and>
   (\<not> regex opts \<and> 0 < maxResults opts \<and> (k, v) \<in> set kvs \<and>
    texts_defined yaml_value_text (Object kvs)
    \<longrightarrow>
      (\<exists>found. yaml_searchKeyword RegExp (Object kvs) kw opts = Inr found \<and>
         (\<lparr>mtype = ValueMatch, mpath = k, mkey = k, mvalue = v\<rparr> \<in> set found
          \<longleftrightarrow> searchValues opts \<and>
              (\<exists>text. to_string v = Inr text \<and> contains_keyword opts text kw)))) \<and>
   (yaml_searchKeyword RegExp (Object kvs) kw opts = Inr found \<and> \<not> regex opts \<and>
    0 < maxResults opts \<and> (k, v) \<in> set kvs
    \<longrightarrow>
      (\<lparr>mtype = ValueMatch, mpath = k, mkey = k, mvalue = v\<rparr> \<in> set found
       \<longleftrightarrow> searchValues opts \<and> (\<exists>text. to_string v = Inr text \<and> contains_keyword opts text kw)))"
proof -
  have arrays: "search value_text opts pat (Array es xs) path st = Inr st"
    if a: "list_all (\<lambda>e. \<not> is_object (slot_value e)) es"
  proof -
    have "search value_text opts pat (slot_value (es ! i)) (item_path path i) s = Inr s"
      if "i \<in> set [0 ..< length es]" for i s
      using that a by (simp add: search_not_object list_all_length)
    then have "fold_err (\<lambda>i. search value_text opts pat (slot_value (es ! i)) (item_path path i))
          [0 ..< length es] st = Inr st"
      by (rule fold_err_unchanged)
    then show ?thesis by simp
  qed
  have entries: "\<lparr>mtype = ValueMatch, mpath = key_path p k, mkey = k, mvalue = v\<rparr> \<in> set (results b)
       \<longleftrightarrow> searchValues opts \<and>
           (\<exists>text. vt v = Inr (Some text) \<and> contains_keyword opts text kw)"
    if "search vt opts (Keyword kw) (Object kvs) p a = Inr b"
      and "length (results a) < maxResults opts" and "(k, v) \<in> set kvs"
      and "\<lparr>mtype = ValueMatch, mpath = key_path p k, mkey = k, mvalue = v\<rparr> \<notin> set (results a)"
    for vt p a b
    using search_Object_entry [OF that(1,2,3)]
      search_new_value_match [OF that(1) _ that(4)]
    by auto
  have top: "\<lparr>mtype = ValueMatch, mpath = k, mkey = k, mvalue = v\<rparr> \<in> set fnd
       \<longleftrightarrow> searchValues opts \<and>
           (\<exists>text. vt v = Inr (Some text) \<and> contains_keyword opts text kw)"
    if "searchKeyword_with vt RegExp (Object kvs) kw opts = Inr fnd" and "\<not> regex opts"
      and "0 < maxResults opts" and "(k, v) \<in> set kvs"
    for vt fnd
  proof -
    from that(1,2) obtain b where
      b: "search vt opts (Keyword kw) (Object kvs) [] \<lparr>results = [], lastIndex = 0\<rparr> = Inr b"
      and f: "fnd = results b"
      by (auto simp: searchKeyword_with_def split: sum.splits)
    from entries [OF b _ that(4)] that(3) f show ?thesis by (simp add: key_path_def)
  qed
  have returns: "\<exists>fnd. searchKeyword_with vt RegExp (Object kvs) kw opts = Inr fnd \<and>
       (\<lparr>mtype = ValueMatch, mpath = k, mkey = k, mvalue = v\<rparr> \<in> set fnd
        \<longleftrightarrow> searchValues opts \<and>
            (\<exists>text. vt v = Inr (Some text) \<and> contains_keyword opts text kw))"
    if "\<not> regex opts" and "0 < maxResults opts" and "(k, v) \<in> set kvs"
      and "texts_defined vt (Object kvs)"
    for vt
  proof -
    from search_total [OF that(4)] obtain b where
      "search vt opts (Keyword kw) (Object kvs) [] \<lparr>results = [], lastIndex = 0\<rparr> = Inr b"
      by blast
    with that(1) have r: "searchKeyword_with vt RegExp (Object kvs) kw opts = Inr (results b)"
      by (simp add: searchKeyword_with_def)
    from top [OF r that(1,2,3)] r show ?thesis by blast
  qed
  have json: "(\<exists>text. json_value_text v = Inr (Some text) \<and> contains_keyword opts text kw)
       \<longleftrightarrow> (\<exists>text. v = Str text \<and> contains_keyword opts text kw)"
    by (cases v) auto
  have yaml: "(\<exists>text. yaml_value_text v = Inr (Some text) \<and> contains_keyword opts text kw)
       \<longleftrightarrow> (\<exists>text. to_string v = Inr text \<and> contains_keyword opts text kw)"
    by (auto simp: yaml_value_text_def split: sum.splits)
  have c1: "list_all (\<lambda>e. \<not> is_object (slot_value e)) es \<longrightarrow>
      search value_text opts pat (Array es xs) path st = Inr st"
    using arrays by blast
  have c2: "search value_text opts (Keyword kw) (Object kvs) path st = Inr st' \<and>
    length (results st) < maxResults opts \<and> (k, v) \<in> set kvs \<and>
    \<lparr>mtype = ValueMatch, mpath = key_path path k, mkey = k, mvalue = v\<rparr> \<notin> set (results st)
    \<longrightarrow>
      (\<lparr>mtype = ValueMatch, mpath = key_path path k, mkey = k, mvalue = v\<rparr> \<in> set (results st')
       \<longleftrightarrow> searchValues opts \<and>
           (\<exists>text. value_text v = Inr (Some text) \<and> contains_keyword opts text kw))"
    using entries [of value_text path st st'] by blast
  have c3: "\<not> regex opts \<and> 0 < maxResults opts \<and> (k, v) \<in> set kvs
    \<longrightarrow>
      (\<exists>found. searchKeyword RegExp (Object kvs) kw opts = Inr found \<and>
         (\<lparr>mtype = ValueMatch, mpath = k, mkey = k, mvalue = v\<rparr> \<in> set found
          \<longleftrightarrow> searchValues opts \<and> (\<exists>text. v = Str text \<and> contains_keyword opts text kw)))"
    using returns [of json_value_text, OF _ _ _ texts_defined_json]
    unfolding searchKeyword_def json by blast
  have c4: "\<not> regex opts \<and> 0 < maxResults opts \<and> (k, v) \<in> set kvs \<and>
    texts_defined yaml_value_text (Object kvs)
    \<longrightarrow>
      (\<exists>found. yaml_searchKeyword RegExp (Object kvs) kw opts = Inr found \<and>
         (\<lparr>mtype = ValueMatch, mpath = k, mkey = k, mvalue = v\<rparr> \<in> set found
          \<longleftrightarrow> searchValues opts \<and>
              (\<exists>text. to_string v = Inr text \<and> contains_keyword opts text kw)))"
    using returns [of yaml_value_text]
    unfolding yaml_searchKeyword_def yaml by blast
  have c5: "yaml_searchKeyword RegExp (Object kvs) kw opts = Inr found \<and> \<not> regex opts \<and>
    0 < maxResults opts \<and> (k, v) \<in> set kvs
    \<longrightarrow>
      (\<lparr>mtype = ValueMatch, mpath = k, mkey = k, mvalue = v\<rparr> \<in> set found
       \<longleftrightarrow> searchValues opts \<and> (\<exists>text. to_string v = Inr text \<and> contains_keyword opts text kw))"
    using top [of yaml_value_text found]
    unfolding yaml_searchKeyword_def yaml by blast
  from c1 c2 c3 c4 c5 show ?thesis by (intro conjI)
qed

theorem search_tests_entry_values_only_witness:
  "list_all (\<lambda>e. \<not> is_object (slot_value e)) [Some (Str ''red''), Some (Str ''blue'')] \<and>
   search json_value_text default_options (Keyword ''red'') (array_of [Str ''red'', Str ''blue''])
     ''tags'' \<lparr>results = [], lastIndex = 0\<rparr> = Inr \<lparr>results = [], lastIndex = 0\<rparr> \<and>
   \<not> regex default_options \<and> 0 < maxResults default_options \<and>
   (''colour'', Str ''Dark Red'') \<in>
     set [(''name'', Str ''widget''), (''colour'', Str ''Dark Red''),
          (''tags'', array_of [Str ''red'', Str ''blue''])] \<and>
   searchKeyword (\<lambda>k i. None)
     (Object [(''name'', Str ''widget''), (''colour'', Str ''Dark Red''),
              (''tags'', array_of [Str ''red'', Str ''blue''])])
     ''red'' default_options =
     Inr [\<lparr>mtype = ValueMatch, mpath = ''colour'', mkey = ''colour'', mvalue = Str ''Dark Red''\<rparr>] \<and>
   searchValues default_options \<and> contains_keyword default_options ''Dark Red'' ''red'' \<and>
   (''tags'', array_of [Str ''red'', Str ''blue'']) \<in>
     set [(''name'', Str ''widget''), (''tags'', array_of [Str ''red'', Str ''blue''])] \<and>
   texts_defined yaml_value_text
     (Object [(''name'', Str ''widget''), (''tags'', array_of [Str ''red'', Str ''blue''])]) \<and>
   to_string (array_of [Str ''red'', Str ''blue'']) = Inr ''red,blue'' \<and>
   contains_keyword default_options ''red,blue'' ''red''"
proof -
  have h: "list_all (\<lambda>e. \<not> is_object (slot_value e)) [Some (Str ''red''), Some (Str ''blue'')]"
    by simp
  have e: "searchKeyword (\<lambda>k i. None)
     (Object [(''name'', Str ''widget''), (''colour'', Str ''Dark Red''),
              (''tags'', array_of [Str ''red'', Str ''blue''])])
     ''red'' default_options =
     Inr [\<lparr>mtype = ValueMatch, mpath = ''colour'', mkey = ''colour'', mvalue = Str ''Dark Red''\<rparr>]"
    by code_simp
  have y: "yaml_searchKeyword (\<lambda>k i. None)
     (Object [(''name'', Str ''widget''), (''tags'', array_of [Str ''red'', Str ''blue''])])
     ''red'' default_options =
     Inr [\<lparr>mtype = ValueMatch, mpath = ''tags'', mkey = ''tags'',
            mvalue = array_of [Str ''red'', Str ''blue'']\<rparr>]"
    by code_simp
  have t: "to_string (array_of [Str ''red'', Str ''blue'']) = Inr ''red,blue''"
    by code_simp
  have d: "texts_defined yaml_value_text
     (Object [(''name'', Str ''widget''), (''tags'', array_of [Str ''red'', Str ''blue''])])"
    by code_simp
  have o: "\<not> regex default_options" "0 < maxResults default_options"
    "searchValues default_options"
    by (simp_all add: default_options_def)
  have m: "(''colour'', Str ''Dark Red'') \<in>
     set [(''name'', Str ''widget''), (''colour'', Str ''Dark Red''),
          (''tags'', array_of [Str ''red'', Str ''blue''])]"
    by simp
  have n: "(''tags'', array_of [Str ''red'', Str ''blue'']) \<in>
     set [(''name'', Str ''widget''), (''tags'', array_of [Str ''red'', Str ''blue''])]"
    by simp
  have a: "search json_value_text default_options (Keyword ''red'')
     (array_of [Str ''red'', Str ''blue'']) ''tags'' \<lparr>results = [], lastIndex = 0\<rparr>
     = Inr \<lparr>results = [], lastIndex = 0\<rparr>"
    using search_tests_entry_values_only [THEN conjunct1, rule_format, OF h] by simp
  from search_tests_entry_values_only
    [THEN conjunct2, THEN conjunct2, THEN conjunct1, rule_format, OF conjI, OF o(1) conjI,
     OF o(2) m, of "\<lambda>k i. None" "''red''"] e
  have j: "contains_keyword default_options ''Dark Red'' ''red''" by simp
  from search_tests_entry_values_only
    [THEN conjunct2, THEN conjunct2, THEN conjunct2, THEN conjunct1, rule_format, OF conjI,
     OF o(1) conjI, OF o(2) conjI, OF n d, of "\<lambda>k i. None" "''red''"] y t
  have c: "contains_keyword default_options ''red,blue'' ''red''" by simp
  from h a e o m n d t j c show ?thesis by simp
qed

text \<open>Against claim C2 as stated: the scenario in \<^verbatim>\<open>JSONHandler\<close> returns no Match, and in
  \<^verbatim>\<open>YAMLHandler\<close> one Match, whose path is \<^verbatim>\<open>tags\<close> and whose value is the whole array.\<close>

theorem search_scenario_counterexample:
  "searchKeyword (\<lambda>k i. None)
     (Object [(''name'', Str ''widget''), (''tags'', array_of [Str ''red'', Str ''blue''])])
     ''red'' default_options = Inr [] \<and>
   yaml_searchKeyword (\<lambda>k i. None)
     (Object [(''name'', Str ''widget''), (''tags'', array_of [Str ''red'', Str ''blue''])])
     ''red'' default_options =
     Inr [\<lparr>mtype = ValueMatch, mpath = ''tags'', mkey = ''tags'',
            mvalue = array_of [Str ''red'', Str ''blue'']\<rparr>]"
  by code_simp

end
